theory Spec2Isabelle
  imports Main "HOL-Library.AList"
begin

section \<open>The transaction-lifecycle tracker of \<^verbatim>\<open>src/solutions/creativedev.ts\<close>\<close>

text \<open>
  The tracker is a closure over five mutable collections and two collaborators: the chain
  oracle \<^verbatim>\<open>api\<close> and the notification sink \<^verbatim>\<open>outputApi\<close>. The
  model passes the collections as a record, takes the oracle as a record of pure functions
  and returns, beside the new state, the list of calls the handler made on the two
  collaborators, in the order it made them. The \<^verbatim>\<open>console.log\<close> lines are
  left out.
\<close>

subsection \<open>Data\<close>

text \<open>The three shapes of \<^verbatim>\<open>IncomingEvent\<close>.\<close>

datatype event =
    NewBlock string string      \<comment> \<open>\<^verbatim>\<open>blockHash\<close>, \<^verbatim>\<open>parent\<close>\<close>
  | NewTransaction string       \<comment> \<open>\<^verbatim>\<open>value\<close>\<close>
  | Finalized string            \<comment> \<open>\<^verbatim>\<open>blockHash\<close>\<close>

text \<open>The argument of \<^verbatim>\<open>onTxSettled\<close> and \<^verbatim>\<open>onTxDone\<close>.\<close>

datatype outcome =
    Valid string bool           \<comment> \<open>\<^verbatim>\<open>blockHash\<close>, \<^verbatim>\<open>successful\<close>\<close>
  | Invalid string              \<comment> \<open>\<^verbatim>\<open>blockHash\<close>\<close>

text \<open>The oracle: the three query functions of \<^verbatim>\<open>API\<close> the tracker calls.\<close>

record api =
  getBody :: "string \<Rightarrow> string list"
  isTxValid :: "string \<Rightarrow> string \<Rightarrow> bool"
  isTxSuccessful :: "string \<Rightarrow> string \<Rightarrow> bool"

text \<open>
  One entry for every call a handler can make on \<^verbatim>\<open>api\<close> or
  \<^verbatim>\<open>outputApi\<close>. \<^verbatim>\<open>api.unpin\<close> is part of the interface, so it
  has an entry too.
\<close>

datatype call =
    GetBody string
  | IsTxValid string string
  | IsTxSuccessful string string
  | Unpin "string list"
  | OnTxSettled string outcome
  | OnTxDone string outcome

text \<open>
  The closure's variables. \<^verbatim>\<open>settledTxs\<close> is a \<^verbatim>\<open>Map\<close> that the
  \<^verbatim>\<open>finalized\<close> handler iterates, so it is an association list in insertion
  order; \<^verbatim>\<open>blockParents\<close> is only read by key.
\<close>

record tracker =
  pendingTxs :: "string set"
  settledTxs :: "(string \<times> string) list"
  doneTxs :: "string set"
  newTxs :: "string list"
  blockParents :: "string \<rightharpoonup> string"

definition init :: tracker where
  "init = \<lparr>pendingTxs = {}, settledTxs = [], doneTxs = {}, newTxs = [], blockParents = Map.empty\<rparr>"

text \<open>\<^verbatim>\<open>Map.prototype.has\<close> on the association list.\<close>

definition has :: "(string \<times> string) list \<Rightarrow> string \<Rightarrow> bool" where
  "has al k = (map_of al k \<noteq> None)"

text \<open>
  \<^verbatim>\<open>m.get(k) || ''\<close>: the empty string when the key is missing, and also when
  the stored string is itself empty (the only falsy string).
\<close>

definition or_empty :: "string option \<Rightarrow> string" where
  "or_empty v = (case v of None \<Rightarrow> [] | Some x \<Rightarrow> (if x = [] then [] else x))"

subsection \<open>The \<^verbatim>\<open>newBlock\<close> handler\<close>

text \<open>The calls of one settlement or completion, ending in the callback \<open>cb\<close>.\<close>

definition report :: "api \<Rightarrow> (string \<Rightarrow> outcome \<Rightarrow> call) \<Rightarrow> string \<Rightarrow> string \<Rightarrow> call list" where
  "report a cb blockHash txHash =
     (if isTxValid a blockHash txHash
      then [IsTxValid blockHash txHash, IsTxSuccessful blockHash txHash,
            cb txHash (Valid blockHash (isTxSuccessful a blockHash txHash))]
      else [IsTxValid blockHash txHash, cb txHash (Invalid blockHash)])"

text \<open>The body of the loop over \<^verbatim>\<open>txsInBlock\<close>.\<close>

definition settleTx :: "api \<Rightarrow> string \<Rightarrow> string \<Rightarrow> tracker \<Rightarrow> tracker \<times> call list" where
  "settleTx a blockHash txHash s =
     (if has (settledTxs s) txHash \<or> txHash \<in> doneTxs s then (s, [])
      else
        let s1 = (if txHash \<notin> pendingTxs s then s\<lparr>newTxs := newTxs s @ [txHash]\<rparr> else s);
            s2 = s1\<lparr>settledTxs := AList.update txHash blockHash (settledTxs s1)\<rparr>;
            s3 = s2\<lparr>pendingTxs := pendingTxs s2 - {txHash}\<rparr>
        in (s3, report a OnTxSettled blockHash txHash))"

fun settleLoop :: "api \<Rightarrow> string \<Rightarrow> string list \<Rightarrow> tracker \<Rightarrow> tracker \<times> call list" where
  "settleLoop a blockHash [] s = (s, [])"
| "settleLoop a blockHash (txHash # txs) s =
     (case settleTx a blockHash txHash s of
        (s1, c1) \<Rightarrow> (case settleLoop a blockHash txs s1 of (s2, c2) \<Rightarrow> (s2, c1 @ c2)))"

definition onNewBlock :: "api \<Rightarrow> string \<Rightarrow> string \<Rightarrow> tracker \<Rightarrow> tracker \<times> call list" where
  "onNewBlock a blockHash parent s =
     (case settleLoop a blockHash (getBody a blockHash)
             (s\<lparr>blockParents := (blockParents s)(blockHash \<mapsto> parent)\<rparr>) of
        (s', cs) \<Rightarrow> (s', GetBody blockHash # cs))"

subsection \<open>The \<^verbatim>\<open>newTransaction\<close> handler\<close>

definition onNewTx :: "string \<Rightarrow> tracker \<Rightarrow> tracker \<times> call list" where
  "onNewTx transaction s =
     (if transaction \<notin> pendingTxs s \<and> \<not> has (settledTxs s) transaction \<and> transaction \<notin> doneTxs s
      then (s\<lparr>pendingTxs := insert transaction (pendingTxs s),
              newTxs := newTxs s @ [transaction]\<rparr>, [])
      else (s, []))"

subsection \<open>The \<^verbatim>\<open>finalized\<close> handler\<close>

text \<open>
  The \<^verbatim>\<open>while (current)\<close> loop. Nothing bounds it, so it is a partial function:
  \<open>None\<close> is the loop that never ends.
\<close>

partial_function (option) walk :: "(string \<rightharpoonup> string) \<Rightarrow> string set \<Rightarrow> string \<Rightarrow> string set option" where
  "walk parents finalizedBlocks current =
     (if current = [] then Some finalizedBlocks
      else walk parents (insert current finalizedBlocks) (or_empty (parents current)))"

declare walk.simps [code]

text \<open>The loop over \<^verbatim>\<open>settledTxs.entries()\<close> that fills \<^verbatim>\<open>txsToDone\<close>.\<close>

definition txsToDone :: "string set \<Rightarrow> (string \<times> string) list \<Rightarrow> string set" where
  "txsToDone finalizedBlocks settled =
     set (map fst (filter (\<lambda>(txHash, txBlockHash). txBlockHash \<in> finalizedBlocks) settled))"

text \<open>The body of the loop over \<^verbatim>\<open>newTxs\<close>.\<close>

definition doneTx :: "api \<Rightarrow> string set \<Rightarrow> string \<Rightarrow> tracker \<Rightarrow> tracker \<times> call list" where
  "doneTx a toDone txHash s =
     (if txHash \<in> toDone then
        let blockHash = or_empty (map_of (settledTxs s) txHash);
            s1 = s\<lparr>settledTxs := AList.delete txHash (settledTxs s)\<rparr>;
            s2 = s1\<lparr>doneTxs := insert txHash (doneTxs s1)\<rparr>
        in (s2, report a OnTxDone blockHash txHash)
      else (s, []))"

fun doneLoop :: "api \<Rightarrow> string set \<Rightarrow> string list \<Rightarrow> tracker \<Rightarrow> tracker \<times> call list" where
  "doneLoop a toDone [] s = (s, [])"
| "doneLoop a toDone (txHash # txs) s =
     (case doneTx a toDone txHash s of
        (s1, c1) \<Rightarrow> (case doneLoop a toDone txs s1 of (s2, c2) \<Rightarrow> (s2, c1 @ c2)))"

text \<open>The handler returns \<open>None\<close> when the ancestry walk never ends; it has made no call then.\<close>

definition onFinalized :: "api \<Rightarrow> string \<Rightarrow> tracker \<Rightarrow> (tracker \<times> call list) option" where
  "onFinalized a blockHash s =
     (case walk (blockParents s) {} blockHash of
        None \<Rightarrow> None
      | Some finalizedBlocks \<Rightarrow>
          Some (doneLoop a (txsToDone finalizedBlocks (settledTxs s)) (newTxs s) s))"

subsection \<open>The dispatcher\<close>

text \<open>
  The function \<^verbatim>\<open>creativedev\<close> returns: one event, handled to completion.
  \<^verbatim>\<open>IncomingEvent\<close> has these three shapes only, and the
  \<^verbatim>\<open>switch\<close> has no default branch.
\<close>

definition creativedev :: "api \<Rightarrow> event \<Rightarrow> tracker \<Rightarrow> (tracker \<times> call list) option" where
  "creativedev a e s =
     (case e of
        NewBlock blockHash parent \<Rightarrow> Some (onNewBlock a blockHash parent s)
      | NewTransaction transaction \<Rightarrow> Some (onNewTx transaction s)
      | Finalized blockHash \<Rightarrow> onFinalized a blockHash s)"

text \<open>
  A sequence of events, each handled after the one before. The result is the state after
  the last event (\<open>None\<close> when a handler never returned) and every call made on the way.
\<close>

fun run :: "api \<Rightarrow> event list \<Rightarrow> tracker \<Rightarrow> tracker option \<times> call list" where
  "run a [] s = (Some s, [])"
| "run a (e # es) s =
     (case creativedev a e s of
        None \<Rightarrow> (None, [])
      | Some (s1, c1) \<Rightarrow> (case run a es s1 of (r, c2) \<Rightarrow> (r, c1 @ c2)))"

subsection \<open>Reading the calls\<close>

text \<open>How often a callback was made for a transaction, in a list of calls.\<close>

fun isSettledFor :: "string \<Rightarrow> call \<Rightarrow> bool" where
  "isSettledFor t (OnTxSettled t' oc) = (t' = t)"
| "isSettledFor t c = False"

fun isDoneFor :: "string \<Rightarrow> call \<Rightarrow> bool" where
  "isDoneFor t (OnTxDone t' oc) = (t' = t)"
| "isDoneFor t c = False"

definition nSettled :: "string \<Rightarrow> call list \<Rightarrow> nat" where
  "nSettled t cs = length (filter (isSettledFor t) cs)"

definition nDone :: "string \<Rightarrow> call list \<Rightarrow> nat" where
  "nDone t cs = length (filter (isDoneFor t) cs)"

text \<open>
  Every \<^verbatim>\<open>onTxDone\<close> in the list is for a transaction in \<open>S\<close> or one
  with an earlier \<^verbatim>\<open>onTxSettled\<close> in the list.
\<close>

fun doneOk :: "string set \<Rightarrow> call list \<Rightarrow> bool" where
  "doneOk S [] = True"
| "doneOk S (OnTxSettled t oc # cs) = doneOk (insert t S) cs"
| "doneOk S (OnTxDone t oc # cs) = (t \<in> S \<and> doneOk S cs)"
| "doneOk S (c # cs) = doneOk S cs"

subsection \<open>Invariants\<close>

abbreviation settledKeys :: "tracker \<Rightarrow> string set" where
  "settledKeys s \<equiv> fst ` set (settledTxs s)"

text \<open>No transaction is in two of the three lifecycle collections.\<close>

definition disjointTxs :: "tracker \<Rightarrow> bool" where
  "disjointTxs s =
     (pendingTxs s \<inter> settledKeys s = {} \<and> pendingTxs s \<inter> doneTxs s = {} \<and>
      settledKeys s \<inter> doneTxs s = {})"

text \<open>
  The arrival queue lists every known transaction once, the collections are disjoint, no
  key is stored twice in \<^verbatim>\<open>settledTxs\<close>, and every settlement block has a
  recorded parent.
\<close>

definition tracker_inv :: "tracker \<Rightarrow> bool" where
  "tracker_inv s =
     (distinct (newTxs s) \<and> set (newTxs s) = pendingTxs s \<union> settledKeys s \<union> doneTxs s \<and>
      disjointTxs s \<and> distinct (map fst (settledTxs s)) \<and>
      snd ` set (settledTxs s) \<subseteq> dom (blockParents s))"

text \<open>
  The calls made so far against the state: one \<^verbatim>\<open>onTxSettled\<close> for each
  settled or done transaction and for no other, one \<^verbatim>\<open>onTxDone\<close> for each
  done transaction and for no other.
\<close>

definition trace_inv :: "tracker \<Rightarrow> call list \<Rightarrow> bool" where
  "trace_inv s cs =
     ((\<forall>t. nSettled t cs = (if t \<in> settledKeys s \<union> doneTxs s then 1 else 0)) \<and>
      (\<forall>t. nDone t cs = (if t \<in> doneTxs s then 1 else 0)) \<and>
      doneOk {} cs)"

definition settledIn :: "call list \<Rightarrow> string set" where
  "settledIn cs = {t. \<exists>c\<in>set cs. isSettledFor t c}"

subsection \<open>A sample oracle and sample events\<close>

text \<open>
  Block \<open>b1\<close> holds \<open>t1\<close> then \<open>t2\<close>, block \<open>b4\<close> holds \<open>t1\<close> again, the
  block with the empty hash holds \<open>t0\<close>, every other block is empty; every transaction
  is valid and successful.
\<close>

definition exApi :: api where
  "exApi = \<lparr>getBody = (\<lambda>b. if b = ''b1'' then [''t1'', ''t2''] else if b = ''b4'' then [''t1'']
                          else if b = [] then [''t0''] else []),
             isTxValid = (\<lambda>b t. True), isTxSuccessful = (\<lambda>b t. True)\<rparr>"

text \<open>\<open>t2\<close> is announced, \<open>b1\<close> arrives and is finalized.\<close>

definition exEvents :: "event list" where
  "exEvents = [NewTransaction ''t2'', NewBlock ''b1'' ''g'', Finalized ''b1'']"

definition exCalls :: "call list" where
  "exCalls =
     [GetBody ''b1'',
      IsTxValid ''b1'' ''t1'', IsTxSuccessful ''b1'' ''t1'', OnTxSettled ''t1'' (Valid ''b1'' True),
      IsTxValid ''b1'' ''t2'', IsTxSuccessful ''b1'' ''t2'', OnTxSettled ''t2'' (Valid ''b1'' True),
      IsTxValid ''b1'' ''t2'', IsTxSuccessful ''b1'' ''t2'', OnTxDone ''t2'' (Valid ''b1'' True),
      IsTxValid ''b1'' ''t1'', IsTxSuccessful ''b1'' ''t1'', OnTxDone ''t1'' (Valid ''b1'' True)]"

text \<open>The transactions of the \<^verbatim>\<open>onTxDone\<close> calls of a list, in the order of the calls.\<close>

fun doneOrder :: "call list \<Rightarrow> string list" where
  "doneOrder [] = []"
| "doneOrder (OnTxDone t oc # cs) = t # doneOrder cs"
| "doneOrder (c # cs) = doneOrder cs"

text \<open>The states the sample events lead through.\<close>

definition exState1 :: tracker where
  "exState1 = \<lparr>pendingTxs = {''t2''}, settledTxs = [], doneTxs = {}, newTxs = [''t2''],
                blockParents = Map.empty\<rparr>"

definition exState2 :: tracker where
  "exState2 = \<lparr>pendingTxs = {}, settledTxs = [(''t1'', ''b1''), (''t2'', ''b1'')], doneTxs = {},
                newTxs = [''t2'', ''t1''], blockParents = [''b1'' \<mapsto> ''g'']\<rparr>"

definition exState3 :: tracker where
  "exState3 = \<lparr>pendingTxs = {}, settledTxs = [], doneTxs = {''t1'', ''t2''},
                newTxs = [''t2'', ''t1''], blockParents = [''b1'' \<mapsto> ''g'']\<rparr>"

text \<open>Oracle calls in a list: the two lookups for one (block, transaction) pair.\<close>

definition nIsTxValid :: "string \<Rightarrow> string \<Rightarrow> call list \<Rightarrow> nat" where
  "nIsTxValid b t cs = length (filter (\<lambda>c. c = IsTxValid b t) cs)"

definition nIsTxSuccessful :: "string \<Rightarrow> string \<Rightarrow> call list \<Rightarrow> nat" where
  "nIsTxSuccessful b t cs = length (filter (\<lambda>c. c = IsTxSuccessful b t) cs)"

text \<open>Two sibling blocks on \<open>g\<close>, both empty; the first is finalized.\<close>

definition forkEvents :: "event list" where
  "forkEvents = [NewBlock ''b2'' ''g'', NewBlock ''b3'' ''g'', Finalized ''b2'']"

text \<open>The block an outcome names, and the callbacks for one (block, transaction) pair.\<close>

fun outcomeBlock :: "outcome \<Rightarrow> string" where
  "outcomeBlock (Valid blockHash successful) = blockHash"
| "outcomeBlock (Invalid blockHash) = blockHash"

fun isSettledAt :: "string \<Rightarrow> string \<Rightarrow> call \<Rightarrow> bool" where
  "isSettledAt b t (OnTxSettled t' oc) = (t' = t \<and> outcomeBlock oc = b)"
| "isSettledAt b t c = False"

fun isDoneAt :: "string \<Rightarrow> string \<Rightarrow> call \<Rightarrow> bool" where
  "isDoneAt b t (OnTxDone t' oc) = (t' = t \<and> outcomeBlock oc = b)"
| "isDoneAt b t c = False"

definition nSettledAt :: "string \<Rightarrow> string \<Rightarrow> call list \<Rightarrow> nat" where
  "nSettledAt b t cs = length (filter (isSettledAt b t) cs)"

definition nDoneAt :: "string \<Rightarrow> string \<Rightarrow> call list \<Rightarrow> nat" where
  "nDoneAt b t cs = length (filter (isDoneAt b t) cs)"

text \<open>
  What holds of the calls of every handler, for each pair: one
  \<^verbatim>\<open>isTxValid\<close> for the pair with each callback that names it, one
  \<^verbatim>\<open>isTxSuccessful\<close> for the pair with each such callback when the oracle
  says valid and none otherwise, and no \<^verbatim>\<open>unpin\<close>.
\<close>

definition pairedAt :: "api \<Rightarrow> string \<Rightarrow> string \<Rightarrow> call list \<Rightarrow> bool" where
  "pairedAt a b t cs =
     (nIsTxValid b t cs = nSettledAt b t cs + nDoneAt b t cs \<and>
      nIsTxSuccessful b t cs =
        (if isTxValid a b t then nSettledAt b t cs + nDoneAt b t cs else 0) \<and>
      (\<forall>bs. Unpin bs \<notin> set cs))"

text \<open>
  The calls made so far against the state: each entry of \<^verbatim>\<open>settledTxs\<close> has
  its one \<^verbatim>\<open>onTxSettled\<close> naming the recorded block, and every
  \<^verbatim>\<open>onTxDone\<close> names a pair an \<^verbatim>\<open>onTxSettled\<close> named.
\<close>

definition pair_inv :: "tracker \<Rightarrow> call list \<Rightarrow> bool" where
  "pair_inv s cs =
     ((\<forall>t b. (t, b) \<in> set (settledTxs s) \<longrightarrow> nSettledAt b t cs = 1) \<and>
      (\<forall>t b. nDoneAt b t cs \<le> nSettledAt b t cs))"

subsection \<open>Chains of parent links\<close>

text \<open>
  The blocks the \<^verbatim>\<open>while (current)\<close> loop visits when it ends: it starts at
  \<open>h\<close>, goes from each block to \<^verbatim>\<open>blockParents.get(current) || ''\<close> and
  stops at the empty string.
\<close>

fun chainToRoot :: "(string \<rightharpoonup> string) \<Rightarrow> string list \<Rightarrow> string \<Rightarrow> bool" where
  "chainToRoot m [] h = (h = [])"
| "chainToRoot m (b # bs) h = (h = b \<and> b \<noteq> [] \<and> chainToRoot m bs (or_empty (m b)))"


subsection \<open>More sample states\<close>

text \<open>After \<open>NewBlock a a\<close>: a block recorded as its own parent.\<close>

definition cycleState :: tracker where
  "cycleState = \<lparr>pendingTxs = {}, settledTxs = [], doneTxs = {}, newTxs = [],
                  blockParents = [''a'' \<mapsto> ''a'']\<rparr>"





subsection \<open>Progress of the lifecycle\<close>

text \<open>
  From \<open>s\<close> to \<open>s'\<close> no done transaction is lost, and every settled transaction keeps
  its settlement block or has become done.
\<close>

definition keeps :: "tracker \<Rightarrow> tracker \<Rightarrow> bool" where
  "keeps s s' =
     (doneTxs s \<subseteq> doneTxs s' \<and>
      (\<forall>t b. map_of (settledTxs s) t = Some b \<longrightarrow>
         map_of (settledTxs s') t = Some b \<or> t \<in> doneTxs s'))"

text \<open>The calls hold no \<^verbatim>\<open>onTxSettled\<close> for a transaction settled or done in \<open>s\<close>.\<close>

definition quiet :: "tracker \<Rightarrow> call list \<Rightarrow> bool" where
  "quiet s cs = (\<forall>t\<in>settledKeys s \<union> doneTxs s. nSettled t cs = 0)"

text \<open>After \<open>b4\<close>, which holds \<open>t1\<close> again, arrives in \<open>exState2\<close>.\<close>

definition exState2b :: tracker where
  "exState2b = \<lparr>pendingTxs = {}, settledTxs = [(''t1'', ''b1''), (''t2'', ''b1'')], doneTxs = {},
                 newTxs = [''t2'', ''t1''], blockParents = [''b1'' \<mapsto> ''g'', ''b4'' \<mapsto> ''b1'']\<rparr>"

subsection \<open>The order in which transactions are first seen\<close>

text \<open>
  The transactions an event shows, in the order it shows them: the body of a new block,
  the transaction of a submission, nothing for a finalization.
\<close>

fun appearing :: "api \<Rightarrow> event \<Rightarrow> string list" where
  "appearing a (NewBlock blockHash parent) = getBody a blockHash"
| "appearing a (NewTransaction transaction) = [transaction]"
| "appearing a (Finalized blockHash) = []"

text \<open>Every appearance of a transaction over a sequence of events, in order.\<close>

definition seen :: "api \<Rightarrow> event list \<Rightarrow> string list" where
  "seen a es = concat (map (appearing a) es)"

text \<open>A list with only the first occurrence of each element kept.\<close>

fun firstOccurrences :: "string list \<Rightarrow> string list" where
  "firstOccurrences [] = []"
| "firstOccurrences (x # xs) = x # firstOccurrences (filter (\<lambda>y. y \<noteq> x) xs)"

text \<open>Appending to a queue, one by one, the elements it does not hold yet.\<close>

fun addNew :: "string list \<Rightarrow> string list \<Rightarrow> string list" where
  "addNew q [] = q"
| "addNew q (x # xs) = addNew (if x \<in> set q then q else q @ [x]) xs"

section \<open>Properties\<close>

subsection \<open>Association lists and call counts\<close>

lemma has_keys: "has al k \<longleftrightarrow> k \<in> fst ` set al"
  by (simp add: has_def map_of_eq_None_iff)

lemma update_absent: "k \<notin> fst ` set al \<Longrightarrow> AList.update k v al = al @ [(k, v)]"
  by (induction al) auto

lemma keys_delete: "fst ` set (AList.delete k al) = fst ` set al - {k}"
  by (auto simp: AList.delete_eq)

lemma set_delete: "set (AList.delete k al) \<subseteq> set al"
  by (auto simp: AList.delete_eq)

lemma nSettled_append: "nSettled t (xs @ ys) = nSettled t xs + nSettled t ys"
  by (simp add: nSettled_def)

lemma nDone_append: "nDone t (xs @ ys) = nDone t xs + nDone t ys"
  by (simp add: nDone_def)

lemma nSettled_report_settled: "nSettled t (report a OnTxSettled b t') = (if t' = t then 1 else 0)"
  by (simp add: nSettled_def report_def)

lemma nSettled_report_done: "nSettled t (report a OnTxDone b t') = 0"
  by (simp add: nSettled_def report_def)

lemma nDone_report_settled: "nDone t (report a OnTxSettled b t') = 0"
  by (simp add: nDone_def report_def)

lemma nDone_report_done: "nDone t (report a OnTxDone b t') = (if t' = t then 1 else 0)"
  by (simp add: nDone_def report_def)

lemma doneOk_append: "doneOk S (xs @ ys) = (doneOk S xs \<and> doneOk (S \<union> settledIn xs) ys)"
proof (induction S xs rule: doneOk.induct)
  case (2 S t oc cs)
  have "insert t S \<union> settledIn cs = S \<union> settledIn (OnTxSettled t oc # cs)"
    by (auto simp: settledIn_def)
  with 2 show ?case by simp
qed (auto simp: settledIn_def)

lemma settledIn_nSettled: "t \<in> settledIn cs \<longleftrightarrow> 0 < nSettled t cs"
  by (auto simp: settledIn_def nSettled_def filter_empty_conv)

lemma doneOk_mono: "doneOk S cs \<Longrightarrow> S \<subseteq> S' \<Longrightarrow> doneOk S' cs"
  by (induction S cs arbitrary: S' rule: doneOk.induct) (auto simp: insert_mono)

lemma doneOk_report_settled: "doneOk S (report a OnTxSettled b t)"
  by (simp add: report_def)

lemma doneOk_report_done: "doneOk S (report a OnTxDone b t) = (t \<in> S)"
  by (simp add: report_def)

subsection \<open>What one loop body does\<close>

lemma settleTx_skip:
  "txHash \<in> settledKeys s \<union> doneTxs s \<Longrightarrow> settleTx a b txHash s = (s, [])"
  by (auto simp: settleTx_def has_keys)

lemma settleTx_new:
  "txHash \<notin> settledKeys s \<union> doneTxs s \<Longrightarrow>
   settleTx a b txHash s =
     (s\<lparr>newTxs := (if txHash \<in> pendingTxs s then newTxs s else newTxs s @ [txHash]),
        settledTxs := settledTxs s @ [(txHash, b)],
        pendingTxs := pendingTxs s - {txHash}\<rparr>,
      report a OnTxSettled b txHash)"
  by (simp add: settleTx_def has_keys update_absent Let_def)

lemma doneTx_skip: "txHash \<notin> toDone \<Longrightarrow> doneTx a toDone txHash s = (s, [])"
  by (simp add: doneTx_def)

lemma doneTx_hit:
  "txHash \<in> toDone \<Longrightarrow>
   doneTx a toDone txHash s =
     (s\<lparr>settledTxs := AList.delete txHash (settledTxs s),
        doneTxs := insert txHash (doneTxs s)\<rparr>,
      report a OnTxDone (or_empty (map_of (settledTxs s) txHash)) txHash)"
  by (simp add: doneTx_def Let_def)

lemma onNewTx_known:
  "t \<in> pendingTxs s \<union> settledKeys s \<union> doneTxs s \<Longrightarrow> onNewTx t s = (s, [])"
  unfolding onNewTx_def has_keys by (cases "t \<in> pendingTxs s") auto

lemma onNewTx_unknown:
  "t \<notin> pendingTxs s \<union> settledKeys s \<union> doneTxs s \<Longrightarrow>
   onNewTx t s = (s\<lparr>pendingTxs := insert t (pendingTxs s), newTxs := newTxs s @ [t]\<rparr>, [])"
  by (simp add: onNewTx_def has_keys)

subsection \<open>The invariant through the handlers\<close>

lemma settleTx_tracker_inv:
  assumes "tracker_inv s" "b \<in> dom (blockParents s)" "settleTx a b t s = (s', out)"
  shows "tracker_inv s' \<and> blockParents s' = blockParents s"
proof (cases "t \<in> settledKeys s \<union> doneTxs s")
  case True
  with assms show ?thesis by (simp add: settleTx_skip)
next
  case False
  with assms(3) have s': "s' = s\<lparr>newTxs := (if t \<in> pendingTxs s then newTxs s else newTxs s @ [t]),
        settledTxs := settledTxs s @ [(t, b)], pendingTxs := pendingTxs s - {t}\<rparr>"
    by (simp add: settleTx_new)
  from assms(1,2) False show ?thesis
    unfolding s' tracker_inv_def disjointTxs_def by auto
qed

lemma settleTx_trace_inv:
  assumes "trace_inv s cs" "settleTx a b t s = (s', out)"
  shows "trace_inv s' (cs @ out)"
proof (cases "t \<in> settledKeys s \<union> doneTxs s")
  case True
  with assms show ?thesis by (simp add: settleTx_skip)
next
  case False
  with assms(2) have s': "s' = s\<lparr>newTxs := (if t \<in> pendingTxs s then newTxs s else newTxs s @ [t]),
        settledTxs := settledTxs s @ [(t, b)], pendingTxs := pendingTxs s - {t}\<rparr>"
    and out: "out = report a OnTxSettled b t"
    by (simp_all add: settleTx_new)
  from assms(1) False show ?thesis
    unfolding s' out trace_inv_def
    by (auto simp: nSettled_append nDone_append nSettled_report_settled nDone_report_settled
        doneOk_append doneOk_report_settled)
qed

lemma settleLoop_inv:
  "tracker_inv s \<Longrightarrow> trace_inv s cs \<Longrightarrow> b \<in> dom (blockParents s) \<Longrightarrow>
   settleLoop a b txs s = (s', out) \<Longrightarrow>
   tracker_inv s' \<and> trace_inv s' (cs @ out) \<and> blockParents s' = blockParents s"
proof (induction txs arbitrary: s cs out s')
  case Nil
  then show ?case by simp
next
  case (Cons t txs)
  obtain s1 c1 where one: "settleTx a b t s = (s1, c1)" by force
  obtain s2 c2 where rest: "settleLoop a b txs s1 = (s2, c2)" by force
  from Cons.prems(4) one rest have eq: "s' = s2" "out = c1 @ c2" by simp_all
  from settleTx_tracker_inv [OF Cons.prems(1,3) one]
  have i1: "tracker_inv s1" and bp: "blockParents s1 = blockParents s" by simp_all
  from settleTx_trace_inv [OF Cons.prems(2) one] have t1: "trace_inv s1 (cs @ c1)" .
  from Cons.prems(3) bp have "b \<in> dom (blockParents s1)" by simp
  from Cons.IH [OF i1 t1 this rest] bp show ?case by (simp add: eq)
qed

lemma onNewBlock_inv:
  assumes "tracker_inv s" "trace_inv s cs" "onNewBlock a b p s = (s', out)"
  shows "tracker_inv s' \<and> trace_inv s' (cs @ out)"
proof -
  let ?s0 = "s\<lparr>blockParents := (blockParents s)(b \<mapsto> p)\<rparr>"
  obtain s1 c1 where loop: "settleLoop a b (getBody a b) ?s0 = (s1, c1)" by force
  with assms(3) have eq: "s' = s1" "out = GetBody b # c1" by (simp_all add: onNewBlock_def)
  from assms(1) have i0: "tracker_inv ?s0"
    by (auto simp: tracker_inv_def disjointTxs_def)
  from assms(2) have t0: "trace_inv ?s0 (cs @ [GetBody b])"
    by (simp add: trace_inv_def nSettled_def nDone_def doneOk_append)
  have "b \<in> dom (blockParents ?s0)" by simp
  from settleLoop_inv [OF i0 t0 this loop] show ?thesis by (simp add: eq)
qed

lemma onNewTx_inv:
  assumes "tracker_inv s" "trace_inv s cs" "onNewTx t s = (s', out)"
  shows "tracker_inv s' \<and> trace_inv s' (cs @ out)"
proof (cases "t \<in> pendingTxs s \<union> settledKeys s \<union> doneTxs s")
  case True
  with assms(3) have "s' = s" "out = []" by (simp_all add: onNewTx_known)
  with assms(1,2) show ?thesis by simp
next
  case False
  with assms(3) have s': "s' = s\<lparr>pendingTxs := insert t (pendingTxs s), newTxs := newTxs s @ [t]\<rparr>"
    and out: "out = []" by (simp_all add: onNewTx_unknown)
  from assms(1) False have "tracker_inv s'"
    unfolding s' tracker_inv_def disjointTxs_def by auto
  moreover from assms(2) have "trace_inv s' (cs @ out)"
    unfolding s' out trace_inv_def by simp
  ultimately show ?thesis by simp
qed

lemma doneTx_tracker_inv:
  assumes "tracker_inv s" "t \<in> toDone \<longrightarrow> t \<in> settledKeys s" "doneTx a toDone t s = (s', out)"
  shows "tracker_inv s' \<and> newTxs s' = newTxs s \<and> blockParents s' = blockParents s \<and>
         settledKeys s' = (if t \<in> toDone then settledKeys s - {t} else settledKeys s)"
proof (cases "t \<in> toDone")
  case False
  with assms show ?thesis by (simp add: doneTx_skip)
next
  case True
  with assms(3) have s': "s' = s\<lparr>settledTxs := AList.delete t (settledTxs s),
        doneTxs := insert t (doneTxs s)\<rparr>"
    by (simp add: doneTx_hit)
  from assms(2) True have k: "t \<in> settledKeys s" by simp
  have sub: "snd ` set (AList.delete t (settledTxs s)) \<subseteq> snd ` set (settledTxs s)"
    using set_delete [of t "settledTxs s"] by blast
  from assms(1) k sub have "tracker_inv s'"
    unfolding s' tracker_inv_def disjointTxs_def
    by (simp add: keys_delete AList.distinct_delete) blast
  then show ?thesis using True by (simp add: s' keys_delete)
qed

lemma doneTx_trace_inv:
  assumes "trace_inv s cs" "t \<in> toDone \<longrightarrow> t \<in> settledKeys s \<and> t \<notin> doneTxs s"
    "doneTx a toDone t s = (s', out)"
  shows "trace_inv s' (cs @ out)"
proof (cases "t \<in> toDone")
  case False
  with assms show ?thesis by (simp add: doneTx_skip)
next
  case True
  with assms(3) have s': "s' = s\<lparr>settledTxs := AList.delete t (settledTxs s),
        doneTxs := insert t (doneTxs s)\<rparr>"
    and out: "out = report a OnTxDone (or_empty (map_of (settledTxs s) t)) t"
    by (simp_all add: doneTx_hit)
  from assms(2) True have k: "t \<in> settledKeys s" "t \<notin> doneTxs s" by simp_all
  from assms(1) k have "t \<in> settledIn cs"
    by (simp add: settledIn_nSettled trace_inv_def)
  with assms(1) k show ?thesis
    unfolding s' out trace_inv_def
    by (auto simp: nSettled_append nDone_append nSettled_report_done nDone_report_done
        doneOk_append doneOk_report_done keys_delete)
qed

lemma doneLoop_inv:
  "tracker_inv s \<Longrightarrow> trace_inv s cs \<Longrightarrow> distinct txs \<Longrightarrow>
   toDone \<inter> set txs \<subseteq> settledKeys s \<Longrightarrow> doneLoop a toDone txs s = (s', out) \<Longrightarrow>
   tracker_inv s' \<and> trace_inv s' (cs @ out) \<and> newTxs s' = newTxs s \<and>
   blockParents s' = blockParents s"
proof (induction txs arbitrary: s cs out s')
  case Nil
  then show ?case by simp
next
  case (Cons t txs)
  obtain s1 c1 where one: "doneTx a toDone t s = (s1, c1)" by force
  obtain s2 c2 where rest: "doneLoop a toDone txs s1 = (s2, c2)" by force
  from Cons.prems(5) one rest have eq: "s' = s2" "out = c1 @ c2" by simp_all
  from Cons.prems(4) have hit: "t \<in> toDone \<longrightarrow> t \<in> settledKeys s" by auto
  from Cons.prems(1) hit have hit': "t \<in> toDone \<longrightarrow> t \<in> settledKeys s \<and> t \<notin> doneTxs s"
    by (auto simp: tracker_inv_def disjointTxs_def)
  from doneTx_tracker_inv [OF Cons.prems(1) hit one]
  have i1: "tracker_inv s1" and same: "newTxs s1 = newTxs s" "blockParents s1 = blockParents s"
    and keys: "settledKeys s1 = (if t \<in> toDone then settledKeys s - {t} else settledKeys s)"
    by simp_all
  from doneTx_trace_inv [OF Cons.prems(2) hit' one] have t1: "trace_inv s1 (cs @ c1)" .
  from Cons.prems(3) have d: "distinct txs" and nt: "t \<notin> set txs" by simp_all
  from Cons.prems(4) nt have sub: "toDone \<inter> set txs \<subseteq> settledKeys s1"
    unfolding keys by auto
  from Cons.IH [OF i1 t1 d sub rest] same show ?case by (simp add: eq)
qed

lemma txsToDone_keys: "txsToDone fin al \<subseteq> fst ` set al"
  by (auto simp: txsToDone_def)

lemma onFinalized_inv:
  assumes "tracker_inv s" "trace_inv s cs" "onFinalized a b s = Some (s', out)"
  shows "tracker_inv s' \<and> trace_inv s' (cs @ out)"
proof -
  from assms(3) obtain fin where
    loop: "doneLoop a (txsToDone fin (settledTxs s)) (newTxs s) s = (s', out)"
    by (auto simp: onFinalized_def split: option.splits)
  from assms(1) have d: "distinct (newTxs s)" by (simp add: tracker_inv_def)
  have sub: "txsToDone fin (settledTxs s) \<inter> set (newTxs s) \<subseteq> settledKeys s"
    using txsToDone_keys [of fin "settledTxs s"] by auto
  from doneLoop_inv [OF assms(1,2) d sub loop] show ?thesis by simp
qed

lemma creativedev_inv:
  assumes "tracker_inv s" "trace_inv s cs" "creativedev a e s = Some (s', out)"
  shows "tracker_inv s' \<and> trace_inv s' (cs @ out)"
proof (cases e)
  case (NewBlock b p)
  with assms(3) have "onNewBlock a b p s = (s', out)" by (simp add: creativedev_def)
  from onNewBlock_inv [OF assms(1,2) this] show ?thesis .
next
  case (NewTransaction t)
  with assms(3) have "onNewTx t s = (s', out)" by (simp add: creativedev_def)
  from onNewTx_inv [OF assms(1,2) this] show ?thesis .
next
  case (Finalized b)
  with assms(3) have "onFinalized a b s = Some (s', out)" by (simp add: creativedev_def)
  from onFinalized_inv [OF assms(1,2) this] show ?thesis .
qed

lemma init_inv: "tracker_inv init \<and> trace_inv init []"
  by (simp add: tracker_inv_def trace_inv_def disjointTxs_def init_def nSettled_def nDone_def)

text \<open>Whatever the events, the calls made so far fit some state that satisfies the invariant.\<close>

lemma run_trace_inv:
  "tracker_inv s \<Longrightarrow> trace_inv s cs \<Longrightarrow>
   \<exists>s'. tracker_inv s' \<and> trace_inv s' (cs @ snd (run a es s))"
proof (induction es arbitrary: s cs)
  case Nil
  then show ?case by auto
next
  case (Cons e es)
  show ?case
  proof (cases "creativedev a e s")
    case None
    with Cons.prems show ?thesis by auto
  next
    case (Some r)
    obtain s1 c1 where r: "r = (s1, c1)" by force
    from creativedev_inv [OF Cons.prems Some [unfolded r]]
    have "tracker_inv s1" "trace_inv s1 (cs @ c1)" by simp_all
    from Cons.IH [OF this] Some r show ?thesis
      by (simp add: split_beta)
  qed
qed

lemma run_state_inv:
  "tracker_inv s \<Longrightarrow> trace_inv s cs \<Longrightarrow> fst (run a es s) = Some s' \<Longrightarrow>
   tracker_inv s' \<and> trace_inv s' (cs @ snd (run a es s))"
proof (induction es arbitrary: s cs)
  case Nil
  then show ?case by auto
next
  case (Cons e es)
  show ?case
  proof (cases "creativedev a e s")
    case None
    with Cons.prems show ?thesis by auto
  next
    case (Some r)
    obtain s1 c1 where r: "r = (s1, c1)" by force
    from creativedev_inv [OF Cons.prems(1,2) Some [unfolded r]]
    have i: "tracker_inv s1" "trace_inv s1 (cs @ c1)" by simp_all
    from Cons.prems(3) Some r have "fst (run a es s1) = Some s'" by (simp add: split_beta)
    from Cons.IH [OF i this] Some r show ?thesis
      by (simp add: split_beta)
  qed
qed

subsection \<open>Evaluating the samples\<close>

lemmas eval_defs = creativedev_def onNewBlock_def onNewTx_def onFinalized_def settleTx_def
  doneTx_def report_def txsToDone_def has_def or_empty_def walk.simps init_def Let_def

lemma exEvents_run: "snd (run exApi exEvents init) = exCalls"
  by (simp add: exApi_def exEvents_def exCalls_def eval_defs)

subsection \<open>Each callback at most once, done after settled\<close>

lemma doneOk_split:
  assumes "doneOk {} cs" "cs = xs @ c # ys" "isDoneFor t c"
  shows "\<exists>c'\<in>set xs. isSettledFor t c'"
proof -
  from assms(3) obtain oc where c: "c = OnTxDone t oc" by (cases c) auto
  from assms(1,2) have "doneOk (settledIn xs) (c # ys)" by (simp add: doneOk_append)
  with c have "t \<in> settledIn xs" by simp
  then show ?thesis by (simp add: settledIn_def)
qed

text \<open>
  Claim C1. Whatever the sequence of events handled from the initial state, and whether or
  not the last handler returns, the calls made contain at most one
  \<^verbatim>\<open>onTxSettled\<close> and at most one \<^verbatim>\<open>onTxDone\<close> for any transaction
  \<open>t\<close>, and wherever an \<^verbatim>\<open>onTxDone\<close> for \<open>t\<close> stands in the list, an
  \<^verbatim>\<open>onTxSettled\<close> for \<open>t\<close> stands before it.
\<close>

theorem callbacks_at_most_once_and_in_order:
  "nSettled t (snd (run a es init)) \<le> 1 \<and> nDone t (snd (run a es init)) \<le> 1 \<and>
   (\<forall>xs c ys. snd (run a es init) = xs @ c # ys \<and> isDoneFor t c \<longrightarrow>
      (\<exists>c'\<in>set xs. isSettledFor t c'))"
proof -
  from run_trace_inv [of init "[]" a es] init_inv
  obtain s' where t: "trace_inv s' (snd (run a es init))" by auto
  then have "nSettled t (snd (run a es init)) \<le> 1" "nDone t (snd (run a es init)) \<le> 1"
    by (simp_all add: trace_inv_def)
  moreover from t have "doneOk {} (snd (run a es init))" by (simp add: trace_inv_def)
  then have "\<forall>xs c ys. snd (run a es init) = xs @ c # ys \<and> isDoneFor t c \<longrightarrow>
      (\<exists>c'\<in>set xs. isSettledFor t c')"
    using doneOk_split by blast
  ultimately show ?thesis by simp
qed

theorem callbacks_at_most_once_and_in_order_witness:
  "snd (run exApi exEvents init) =
     take 9 exCalls @ OnTxDone ''t2'' (Valid ''b1'' True) # drop 10 exCalls \<and>
   isDoneFor ''t2'' (OnTxDone ''t2'' (Valid ''b1'' True)) \<and>
   nSettled ''t2'' (snd (run exApi exEvents init)) \<le> 1 \<and>
   nDone ''t2'' (snd (run exApi exEvents init)) \<le> 1 \<and>
   (\<exists>c'\<in>set (take 9 exCalls). isSettledFor ''t2'' c')"
proof -
  have split: "snd (run exApi exEvents init) =
      take 9 exCalls @ OnTxDone ''t2'' (Valid ''b1'' True) # drop 10 exCalls"
    by (simp add: exEvents_run) (simp add: exCalls_def)
  with callbacks_at_most_once_and_in_order [of "''t2''" exApi exEvents]
  show ?thesis by simp
qed

lemma exState1_step: "creativedev exApi (NewTransaction ''t2'') init = Some (exState1, [])"
  by (simp add: exApi_def exState1_def eval_defs)

lemma exState2_step: "onNewBlock exApi ''b1'' ''g'' exState1 = (exState2, take 7 exCalls)"
  by (simp add: exApi_def exState1_def exState2_def exCalls_def eval_defs)

lemma exState3_step: "onFinalized exApi ''b1'' exState2 = Some (exState3, drop 7 exCalls)"
  by (simp add: exApi_def exState2_def exState3_def exCalls_def eval_defs insert_commute)

subsection \<open>The order of the callbacks\<close>

lemma settleLoop_append:
  "settleLoop a b (xs @ ys) s =
     (case settleLoop a b xs s of
        (s1, c1) \<Rightarrow> (case settleLoop a b ys s1 of (s2, c2) \<Rightarrow> (s2, c1 @ c2)))"
  by (induction xs arbitrary: s) (simp_all add: split_beta)

lemma settleTx_known:
  assumes "settleTx a b t s = (s', out)"
  shows "settledKeys s' \<union> doneTxs s' \<subseteq> insert t (settledKeys s \<union> doneTxs s)"
proof (cases "t \<in> settledKeys s \<union> doneTxs s")
  case True
  with assms show ?thesis by (auto simp: settleTx_skip)
next
  case False
  with assms show ?thesis by (auto simp: settleTx_new)
qed

lemma settleTx_nSettled_other:
  assumes "settleTx a b t s = (s', out)" "t' \<noteq> t"
  shows "nSettled t' out = 0"
proof (cases "t \<in> settledKeys s \<union> doneTxs s")
  case True
  with assms show ?thesis by (auto simp: settleTx_skip nSettled_def)
next
  case False
  with assms show ?thesis by (auto simp: settleTx_new nSettled_report_settled)
qed

lemma settleLoop_known:
  "settleLoop a b txs s = (s', out) \<Longrightarrow>
   settledKeys s' \<union> doneTxs s' \<subseteq> settledKeys s \<union> doneTxs s \<union> set txs"
proof (induction txs arbitrary: s out s')
  case Nil
  then show ?case by simp
next
  case (Cons t txs)
  obtain s1 c1 where one: "settleTx a b t s = (s1, c1)" by force
  obtain s2 c2 where rest: "settleLoop a b txs s1 = (s2, c2)" by force
  from Cons.prems one rest have eq: "s' = s2" by simp
  from settleTx_known [OF one] Cons.IH [OF rest] show ?case unfolding eq by simp blast
qed

lemma settleLoop_nSettled_other:
  "settleLoop a b txs s = (s', out) \<Longrightarrow> t' \<notin> set txs \<Longrightarrow> nSettled t' out = 0"
proof (induction txs arbitrary: s out s')
  case Nil
  then show ?case by (simp add: nSettled_def)
next
  case (Cons t txs)
  obtain s1 c1 where one: "settleTx a b t s = (s1, c1)" by force
  obtain s2 c2 where rest: "settleLoop a b txs s1 = (s2, c2)" by force
  from Cons.prems(1) one rest have eq: "out = c1 @ c2" by simp
  from Cons.prems(2) have "t' \<noteq> t" "t' \<notin> set txs" by auto
  with settleTx_nSettled_other [OF one] Cons.IH [OF rest] show ?case
    by (simp add: eq nSettled_append)
qed

lemma report_last: "cb t (if isTxValid a b t then Valid b (isTxSuccessful a b t) else Invalid b)
    \<in> set (report a cb b t)"
  by (simp add: report_def)

lemma settleLoop_emits:
  "t \<in> set txs \<Longrightarrow> t \<notin> settledKeys s \<union> doneTxs s \<Longrightarrow> settleLoop a b txs s = (s', out) \<Longrightarrow>
   OnTxSettled t (if isTxValid a b t then Valid b (isTxSuccessful a b t) else Invalid b) \<in> set out"
proof (induction txs arbitrary: s out s')
  case Nil
  then show ?case by simp
next
  case (Cons x txs)
  obtain s1 c1 where one: "settleTx a b x s = (s1, c1)" by force
  obtain s2 c2 where rest: "settleLoop a b txs s1 = (s2, c2)" by force
  from Cons.prems(3) one rest have eq: "out = c1 @ c2" by simp
  show ?case
  proof (cases "x = t")
    case True
    with Cons.prems(2) one have "c1 = report a OnTxSettled b t" by (simp add: settleTx_new)
    then show ?thesis using report_last [of OnTxSettled t a b] by (simp add: eq)
  next
    case False
    with Cons.prems(1) have "t \<in> set txs" by simp
    moreover from settleTx_known [OF one] Cons.prems(2) False
    have "t \<notin> settledKeys s1 \<union> doneTxs s1" by auto
    ultimately show ?thesis using Cons.IH [OF _ _ rest] by (simp add: eq)
  qed
qed

lemma doneOrder_append: "doneOrder (xs @ ys) = doneOrder xs @ doneOrder ys"
  by (induction xs rule: doneOrder.induct) simp_all

lemma doneOrder_report: "doneOrder (report a OnTxDone b t) = [t]"
  by (simp add: report_def)

lemma doneLoop_order:
  "doneLoop a toDone txs s = (s', out) \<Longrightarrow> doneOrder out = filter (\<lambda>t. t \<in> toDone) txs"
proof (induction txs arbitrary: s out s')
  case Nil
  then show ?case by simp
next
  case (Cons t txs)
  obtain s1 c1 where one: "doneTx a toDone t s = (s1, c1)" by force
  obtain s2 c2 where rest: "doneLoop a toDone txs s1 = (s2, c2)" by force
  from Cons.prems one rest have eq: "out = c1 @ c2" by simp
  from one have "doneOrder c1 = (if t \<in> toDone then [t] else [])"
    by (auto simp: doneTx_skip doneTx_hit doneOrder_report)
  with Cons.IH [OF rest] show ?case by (simp add: eq doneOrder_append)
qed

subsection \<open>The arrival queue is the order of first appearance\<close>

lemma addNew_append: "addNew q (xs @ ys) = addNew (addNew q xs) ys"
  by (induction xs arbitrary: q) simp_all

lemma addNew_firsts: "addNew q xs = q @ firstOccurrences (filter (\<lambda>y. y \<notin> set q) xs)"
proof (induction xs arbitrary: q)
  case Nil
  then show ?case by simp
next
  case (Cons x xs)
  show ?case
  proof (cases "x \<in> set q")
    case True
    with Cons.IH [of q] show ?thesis by simp
  next
    case False
    have "filter (\<lambda>y. y \<notin> set (q @ [x])) xs = filter (\<lambda>y. y \<noteq> x) (filter (\<lambda>y. y \<notin> set q) xs)"
      by (induction xs) auto
    with False Cons.IH [of "q @ [x]"] show ?thesis by simp
  qed
qed

lemma settleTx_newTxs:
  assumes "tracker_inv s" "settleTx a b x s = (s', out)"
  shows "newTxs s' = addNew (newTxs s) [x]"
proof (cases "x \<in> settledKeys s \<union> doneTxs s")
  case True
  with assms(1) have "x \<in> set (newTxs s)" unfolding tracker_inv_def by blast
  with assms(2) True show ?thesis by (simp add: settleTx_skip)
next
  case False
  with assms(1) have "x \<in> set (newTxs s) \<longleftrightarrow> x \<in> pendingTxs s"
    unfolding tracker_inv_def by blast
  with assms(2) False show ?thesis by (auto simp: settleTx_new)
qed

lemma settleLoop_newTxs:
  "tracker_inv s \<Longrightarrow> b \<in> dom (blockParents s) \<Longrightarrow> settleLoop a b txs s = (s', out) \<Longrightarrow>
   newTxs s' = addNew (newTxs s) txs"
proof (induction txs arbitrary: s out s')
  case Nil
  then show ?case by simp
next
  case (Cons x txs)
  obtain s1 c1 where one: "settleTx a b x s = (s1, c1)" by force
  obtain s2 c2 where rest: "settleLoop a b txs s1 = (s2, c2)" by force
  from Cons.prems(3) one rest have eq: "s' = s2" by simp
  from settleTx_tracker_inv [OF Cons.prems(1,2) one]
  have i1: "tracker_inv s1" and bp: "b \<in> dom (blockParents s1)" using Cons.prems(2) by simp_all
  from settleTx_newTxs [OF Cons.prems(1) one] have "newTxs s1 = addNew (newTxs s) [x]" .
  with Cons.IH [OF i1 bp rest] show ?case by (simp add: eq)
qed

lemma doneTx_newTxs: "doneTx a toDone t s = (s', out) \<Longrightarrow> newTxs s' = newTxs s"
  by (auto simp: doneTx_def Let_def split: if_splits)

lemma doneLoop_newTxs: "doneLoop a toDone txs s = (s', out) \<Longrightarrow> newTxs s' = newTxs s"
proof (induction txs arbitrary: s out s')
  case Nil
  then show ?case by simp
next
  case (Cons t txs)
  obtain s1 c1 where one: "doneTx a toDone t s = (s1, c1)" by force
  obtain s2 c2 where rest: "doneLoop a toDone txs s1 = (s2, c2)" by force
  from Cons.prems one rest have eq: "s' = s2" by simp
  from doneTx_newTxs [OF one] Cons.IH [OF rest] show ?case by (simp add: eq)
qed

lemma creativedev_newTxs:
  assumes "tracker_inv s" "creativedev a e s = Some (s', out)"
  shows "newTxs s' = addNew (newTxs s) (appearing a e)"
proof (cases e)
  case (NewBlock b p)
  let ?s0 = "s\<lparr>blockParents := (blockParents s)(b \<mapsto> p)\<rparr>"
  obtain s1 c1 where loop: "settleLoop a b (getBody a b) ?s0 = (s1, c1)" by force
  with assms(2) NewBlock have eq: "s' = s1" by (simp add: creativedev_def onNewBlock_def)
  from assms(1) have i0: "tracker_inv ?s0"
    by (auto simp: tracker_inv_def disjointTxs_def)
  have "b \<in> dom (blockParents ?s0)" by simp
  from settleLoop_newTxs [OF i0 this loop] NewBlock show ?thesis by (simp add: eq)
next
  case (NewTransaction t)
  with assms(2) have tx: "onNewTx t s = (s', out)" by (simp add: creativedev_def)
  show ?thesis
  proof (cases "t \<in> pendingTxs s \<union> settledKeys s \<union> doneTxs s")
    case True
    with assms(1) have "t \<in> set (newTxs s)" by (simp add: tracker_inv_def)
    with tx True NewTransaction show ?thesis by (simp add: onNewTx_known)
  next
    case False
    with assms(1) have "t \<notin> set (newTxs s)" by (simp add: tracker_inv_def)
    with tx False NewTransaction show ?thesis by (auto simp: onNewTx_unknown)
  qed
next
  case (Finalized b)
  with assms(2) obtain fin where
    "doneLoop a (txsToDone fin (settledTxs s)) (newTxs s) s = (s', out)"
    by (auto simp: creativedev_def onFinalized_def split: option.splits)
  from doneLoop_newTxs [OF this] Finalized show ?thesis by simp
qed

lemma run_newTxs:
  "tracker_inv s \<Longrightarrow> trace_inv s cs \<Longrightarrow> fst (run a es s) = Some s' \<Longrightarrow>
   newTxs s' = addNew (newTxs s) (seen a es)"
proof (induction es arbitrary: s cs)
  case Nil
  then show ?case by (simp add: seen_def)
next
  case (Cons e es)
  show ?case
  proof (cases "creativedev a e s")
    case None
    with Cons.prems(3) show ?thesis by simp
  next
    case (Some r)
    obtain s1 c1 where r: "r = (s1, c1)" by force
    from creativedev_inv [OF Cons.prems(1,2) Some [unfolded r]]
    have i: "tracker_inv s1" "trace_inv s1 (cs @ c1)" by simp_all
    from Cons.prems(3) Some r have run: "fst (run a es s1) = Some s'" by (simp add: split_beta)
    from creativedev_newTxs [OF Cons.prems(1) Some [unfolded r]]
    have "newTxs s1 = addNew (newTxs s) (appearing a e)" .
    with Cons.IH [OF i run] show ?thesis by (simp add: seen_def addNew_append)
  qed
qed

lemma newTxs_first_seen:
  assumes "fst (run a es init) = Some s"
  shows "newTxs s = firstOccurrences (seen a es)"
proof -
  from init_inv have i: "tracker_inv init" and ti: "trace_inv init []" by simp_all
  from run_newTxs [OF i ti assms] have "newTxs s = addNew [] (seen a es)" by (simp add: init_def)
  then show ?thesis by (simp add: addNew_firsts)
qed

text \<open>
  Claim C2. In one \<^verbatim>\<open>newBlock\<close> event, when \<open>A\<close> and \<open>B\<close> both settle
  (neither is settled or done before) and \<open>A\<close> stands in the body before the first
  \<open>B\<close>, the handler calls \<^verbatim>\<open>onTxSettled\<close> for \<open>A\<close> with no
  \<^verbatim>\<open>onTxSettled\<close> for \<open>B\<close> before it and one after it. In one
  \<^verbatim>\<open>finalized\<close> event that returns, the transactions of the
  \<^verbatim>\<open>onTxDone\<close> calls, in call order, are the arrival queue
  \<^verbatim>\<open>newTxs\<close> restricted to the transactions that become done. And in a
  state reached from the initial state by the events \<open>es\<close>, the arrival queue is the
  list of the transactions in the order \<open>es\<close> first showed them (by submission or in
  a block body), so the \<^verbatim>\<open>onTxDone\<close> calls come in first-seen order, not
  block order: in the witness the block holds \<open>t1\<close> before \<open>t2\<close>, \<open>t2\<close> was
  submitted first, and \<open>t2\<close> is reported done first.
\<close>

theorem callback_order:
  "(onNewBlock a blockHash parent s = (s1, cs1) \<and> getBody a blockHash = xs @ A # ys \<and>
    B \<notin> set xs \<and> B \<in> set ys \<and> A \<noteq> B \<and>
    A \<notin> settledKeys s \<union> doneTxs s \<and> B \<notin> settledKeys s \<union> doneTxs s \<longrightarrow>
      (\<exists>us oa vs. cs1 = us @ OnTxSettled A oa # vs \<and> nSettled B us = 0 \<and>
         (\<exists>c\<in>set vs. isSettledFor B c))) \<and>
   (onFinalized a finalizedHash s2 = Some (s3, cs3) \<longrightarrow>
      (\<exists>fin. walk (blockParents s2) {} finalizedHash = Some fin \<and>
         doneOrder cs3 = filter (\<lambda>t. t \<in> txsToDone fin (settledTxs s2)) (newTxs s2))) \<and>
   (fst (run a es init) = Some s4 \<and> onFinalized a h s4 = Some (s5, cs5) \<longrightarrow>
      newTxs s4 = firstOccurrences (seen a es) \<and>
      (\<exists>fin. walk (blockParents s4) {} h = Some fin \<and>
         doneOrder cs5 =
           filter (\<lambda>t. t \<in> txsToDone fin (settledTxs s4)) (firstOccurrences (seen a es))))"
proof (intro conjI impI, elim conjE)
  assume nb: "onNewBlock a blockHash parent s = (s1, cs1)"
    and body: "getBody a blockHash = xs @ A # ys"
    and B: "B \<notin> set xs" "B \<in> set ys" "A \<noteq> B"
    and new: "A \<notin> settledKeys s \<union> doneTxs s" "B \<notin> settledKeys s \<union> doneTxs s"
  let ?s0 = "s\<lparr>blockParents := (blockParents s)(blockHash \<mapsto> parent)\<rparr>"
  obtain sa ca where front: "settleLoop a blockHash (xs @ [A]) ?s0 = (sa, ca)" by force
  obtain sb cb where rear: "settleLoop a blockHash ys sa = (sb, cb)" by force
  have "settleLoop a blockHash ((xs @ [A]) @ ys) ?s0 = (sb, ca @ cb)"
    by (simp only: settleLoop_append [of a blockHash "xs @ [A]" ys] front rear split_conv)
  with nb body have cs1: "cs1 = GetBody blockHash # ca @ cb" by (simp add: onNewBlock_def)
  from new(1) have "A \<in> set (xs @ [A])" "A \<notin> settledKeys ?s0 \<union> doneTxs ?s0" by simp_all
  from settleLoop_emits [OF this front] obtain us' oa vs'
    where ca: "ca = us' @ OnTxSettled A oa # vs'" by (auto dest: split_list)
  from B have notin: "B \<notin> set (xs @ [A])" by auto
  from settleLoop_nSettled_other [OF front this] have "nSettled B ca = 0" .
  then have noB: "nSettled B (GetBody blockHash # us') = 0"
    by (simp add: ca nSettled_def)
  from settleLoop_known [OF front] new(2) notin have "B \<notin> settledKeys sa \<union> doneTxs sa"
    by auto
  from settleLoop_emits [OF B(2) this rear] have "\<exists>c\<in>set cb. isSettledFor B c"
    using isSettledFor.simps(1) by blast
  then have "\<exists>c\<in>set (vs' @ cb). isSettledFor B c" by auto
  moreover have "cs1 = (GetBody blockHash # us') @ OnTxSettled A oa # (vs' @ cb)"
    by (simp add: cs1 ca)
  ultimately show "\<exists>us oa vs. cs1 = us @ OnTxSettled A oa # vs \<and> nSettled B us = 0 \<and>
         (\<exists>c\<in>set vs. isSettledFor B c)"
    using noB by blast
next
  assume "onFinalized a finalizedHash s2 = Some (s3, cs3)"
  then obtain fin where "walk (blockParents s2) {} finalizedHash = Some fin"
    and "doneLoop a (txsToDone fin (settledTxs s2)) (newTxs s2) s2 = (s3, cs3)"
    by (auto simp: onFinalized_def split: option.splits)
  with doneLoop_order show "\<exists>fin. walk (blockParents s2) {} finalizedHash = Some fin \<and>
         doneOrder cs3 = filter (\<lambda>t. t \<in> txsToDone fin (settledTxs s2)) (newTxs s2)"
    by blast
next
  assume "fst (run a es init) = Some s4 \<and> onFinalized a h s4 = Some (s5, cs5)"
  then have "fst (run a es init) = Some s4" ..
  then show "newTxs s4 = firstOccurrences (seen a es)" by (rule newTxs_first_seen)
next
  assume "fst (run a es init) = Some s4 \<and> onFinalized a h s4 = Some (s5, cs5)"
  then have r: "fst (run a es init) = Some s4" and f: "onFinalized a h s4 = Some (s5, cs5)"
    by simp_all
  from newTxs_first_seen [OF r] have q: "newTxs s4 = firstOccurrences (seen a es)" .
  from f obtain fin where "walk (blockParents s4) {} h = Some fin"
    and "doneLoop a (txsToDone fin (settledTxs s4)) (newTxs s4) s4 = (s5, cs5)"
    by (auto simp: onFinalized_def split: option.splits)
  with doneLoop_order have "\<exists>fin. walk (blockParents s4) {} h = Some fin \<and>
         doneOrder cs5 = filter (\<lambda>t. t \<in> txsToDone fin (settledTxs s4)) (newTxs s4)"
    by blast
  with q show "\<exists>fin. walk (blockParents s4) {} h = Some fin \<and>
         doneOrder cs5 =
           filter (\<lambda>t. t \<in> txsToDone fin (settledTxs s4)) (firstOccurrences (seen a es))"
    by simp
qed

theorem callback_order_witness:
  "fst (run exApi [NewTransaction ''t2''] init) = Some exState1 \<and>
   onNewBlock exApi ''b1'' ''g'' exState1 = (exState2, take 7 exCalls) \<and>
   getBody exApi ''b1'' = [] @ ''t1'' # [''t2''] \<and>
   ''t1'' \<notin> settledKeys exState1 \<union> doneTxs exState1 \<and>
   ''t2'' \<notin> settledKeys exState1 \<union> doneTxs exState1 \<and>
   (\<exists>us oa vs. take 7 exCalls = us @ OnTxSettled ''t1'' oa # vs \<and> nSettled ''t2'' us = 0 \<and>
      (\<exists>c\<in>set vs. isSettledFor ''t2'' c)) \<and>
   fst (run exApi [NewTransaction ''t2'', NewBlock ''b1'' ''g''] init) = Some exState2 \<and>
   seen exApi [NewTransaction ''t2'', NewBlock ''b1'' ''g''] = [''t2'', ''t1'', ''t2''] \<and>
   firstOccurrences [''t2'', ''t1'', ''t2''] = [''t2'', ''t1''] \<and>
   newTxs exState2 = [''t2'', ''t1''] \<and>
   onFinalized exApi ''b1'' exState2 = Some (exState3, drop 7 exCalls) \<and>
   walk (blockParents exState2) {} ''b1'' = Some {''b1'', ''g''} \<and>
   doneOrder (drop 7 exCalls) = [''t2'', ''t1'']"
proof -
  note inst = callback_order [of exApi "''b1''" "''g''" exState1 exState2 "take 7 exCalls"
      "[]" "''t1''" "[''t2'']" "''t2''" "''b1''" exState2 exState3 "drop 7 exCalls"
      "[NewTransaction ''t2'', NewBlock ''b1'' ''g'']" exState2 "''b1''" exState3
      "drop 7 exCalls"]
  have r1: "fst (run exApi [NewTransaction ''t2''] init) = Some exState1"
    by (simp add: exState1_step)
  have ev: "creativedev exApi (NewBlock ''b1'' ''g'') exState1 = Some (exState2, take 7 exCalls)"
    by (simp add: creativedev_def exState2_step)
  have r2: "fst (run exApi [NewTransaction ''t2'', NewBlock ''b1'' ''g''] init) = Some exState2"
    by (simp add: exState1_step ev)
  have body: "getBody exApi ''b1'' = [] @ ''t1'' # [''t2'']" by (simp add: exApi_def)
  have unknown: "''t1'' \<notin> settledKeys exState1 \<union> doneTxs exState1"
    "''t2'' \<notin> settledKeys exState1 \<union> doneTxs exState1" by (simp_all add: exState1_def)
  have w: "walk (blockParents exState2) {} ''b1'' = Some {''b1'', ''g''}"
    by (simp add: exState2_def walk.simps or_empty_def insert_commute)
  have sn: "seen exApi [NewTransaction ''t2'', NewBlock ''b1'' ''g''] = [''t2'', ''t1'', ''t2'']"
    by (simp add: seen_def exApi_def)
  have fo: "firstOccurrences [''t2'', ''t1'', ''t2''] = [''t2'', ''t1'']" by simp
  have td: "filter (\<lambda>t. t \<in> txsToDone {''b1'', ''g''} (settledTxs exState2)) [''t2'', ''t1'']
      = [''t2'', ''t1'']" by (simp add: exState2_def txsToDone_def)
  from inst r1 r2 exState2_step exState3_step body unknown w sn fo td show ?thesis
    by simp
qed

subsection \<open>Oracle lookups and unpinning\<close>

lemmas count_defs = nIsTxValid_def nIsTxSuccessful_def nSettledAt_def nDoneAt_def

lemma pairedAt_Nil: "pairedAt a b t []"
  by (simp add: pairedAt_def count_defs)

lemma pairedAt_append: "pairedAt a b t xs \<Longrightarrow> pairedAt a b t ys \<Longrightarrow> pairedAt a b t (xs @ ys)"
  by (simp add: pairedAt_def count_defs)

lemma pairedAt_report_settled: "pairedAt a b t (report a OnTxSettled b' t')"
  by (simp add: pairedAt_def report_def count_defs)

lemma pairedAt_report_done: "pairedAt a b t (report a OnTxDone b' t')"
  by (simp add: pairedAt_def report_def count_defs)

lemma settleTx_pairedAt: "settleTx a bh x s = (s', out) \<Longrightarrow> pairedAt a b t out"
  by (auto simp: settleTx_def Let_def pairedAt_Nil pairedAt_report_settled split: if_splits)

lemma doneTx_pairedAt: "doneTx a toDone x s = (s', out) \<Longrightarrow> pairedAt a b t out"
  by (auto simp: doneTx_def Let_def pairedAt_Nil pairedAt_report_done split: if_splits)

lemma settleLoop_pairedAt: "settleLoop a bh txs s = (s', out) \<Longrightarrow> pairedAt a b t out"
proof (induction txs arbitrary: s s' out)
  case Nil
  then show ?case by (simp add: pairedAt_Nil)
next
  case (Cons x txs)
  obtain s1 c1 where one: "settleTx a bh x s = (s1, c1)" by force
  obtain s2 c2 where rest: "settleLoop a bh txs s1 = (s2, c2)" by force
  from Cons.prems one rest have "out = c1 @ c2" by simp
  with settleTx_pairedAt [OF one] Cons.IH [OF rest] show ?case by (simp add: pairedAt_append)
qed

lemma doneLoop_pairedAt: "doneLoop a toDone txs s = (s', out) \<Longrightarrow> pairedAt a b t out"
proof (induction txs arbitrary: s s' out)
  case Nil
  then show ?case by (simp add: pairedAt_Nil)
next
  case (Cons x txs)
  obtain s1 c1 where one: "doneTx a toDone x s = (s1, c1)" by force
  obtain s2 c2 where rest: "doneLoop a toDone txs s1 = (s2, c2)" by force
  from Cons.prems one rest have "out = c1 @ c2" by simp
  with doneTx_pairedAt [OF one] Cons.IH [OF rest] show ?case by (simp add: pairedAt_append)
qed

lemma doneTx_nSettledAt: "doneTx a toDone x s = (s', out) \<Longrightarrow> nSettledAt b t out = 0"
  by (auto simp: doneTx_def Let_def report_def nSettledAt_def split: if_splits)

lemma doneLoop_nSettledAt: "doneLoop a toDone txs s = (s', out) \<Longrightarrow> nSettledAt b t out = 0"
proof (induction txs arbitrary: s s' out)
  case Nil
  then show ?case by (simp add: nSettledAt_def)
next
  case (Cons x txs)
  obtain s1 c1 where one: "doneTx a toDone x s = (s1, c1)" by force
  obtain s2 c2 where rest: "doneLoop a toDone txs s1 = (s2, c2)" by force
  from Cons.prems one rest have "out = c1 @ c2" by simp
  with doneTx_nSettledAt [OF one, of b t] Cons.IH [OF rest] show ?case
    by (simp add: nSettledAt_def)
qed

lemma creativedev_pairedAt:
  assumes "creativedev a e s = Some (s', out)"
  shows "pairedAt a b t out"
proof (cases e)
  case (NewBlock bh p)
  obtain s1 c1 where loop: "settleLoop a bh (getBody a bh)
      (s\<lparr>blockParents := (blockParents s)(bh \<mapsto> p)\<rparr>) = (s1, c1)" by force
  with assms NewBlock have "out = [GetBody bh] @ c1"
    by (simp add: creativedev_def onNewBlock_def)
  moreover have "pairedAt a b t [GetBody bh]"
    by (simp add: pairedAt_def count_defs)
  ultimately show ?thesis using settleLoop_pairedAt [OF loop] by (simp only: pairedAt_append)
next
  case (NewTransaction x)
  with assms have "out = []" by (simp add: creativedev_def onNewTx_def split: if_splits)
  then show ?thesis by (simp add: pairedAt_Nil)
next
  case (Finalized bh)
  with assms obtain fin where
    "doneLoop a (txsToDone fin (settledTxs s)) (newTxs s) s = (s', out)"
    by (auto simp: creativedev_def onFinalized_def split: option.splits)
  then show ?thesis by (rule doneLoop_pairedAt)
qed

lemma run_pairedAt: "pairedAt a b t (snd (run a es s))"
proof (induction es arbitrary: s)
  case Nil
  then show ?case by (simp add: pairedAt_Nil)
next
  case (Cons e es)
  show ?case
  proof (cases "creativedev a e s")
    case None
    then show ?thesis by (simp add: pairedAt_Nil)
  next
    case (Some r)
    obtain s1 c1 where r: "r = (s1, c1)" by force
    from creativedev_pairedAt [OF Some [unfolded r]] Cons.IH [of s1] Some r show ?thesis
      by (simp add: split_beta pairedAt_append)
  qed
qed

text \<open>
  Claim C4, as the code has it. The claim says every \<^verbatim>\<open>finalized\<close> event
  unpins the blocks of abandoned forks. The handler never calls \<^verbatim>\<open>unpin\<close>:
  with \<open>b2\<close> and \<open>b3\<close> both children of \<open>g\<close> and \<open>b2\<close> finalized, \<open>b3\<close> is
  on an abandoned fork, and the only calls of the whole run are the two
  \<^verbatim>\<open>getBody\<close> calls.
\<close>

theorem no_unpin_counterexample:
  "snd (run exApi forkEvents init) = [GetBody ''b2'', GetBody ''b3'']"
  by (simp add: exApi_def forkEvents_def eval_defs)

text \<open>
  Claim C4, amended. The tracker never calls \<^verbatim>\<open>unpin\<close>: from any state and
  over any sequence of events, no call releases any block.
\<close>

theorem unpin_never_called: "Unpin bs \<notin> set (snd (run a es s))"
  using run_pairedAt [of a "[]" "[]" es s] by (simp add: pairedAt_def)

theorem unpin_never_called_witness:
  "Unpin [''b3''] \<notin> set (snd (run exApi forkEvents init))"
  using unpin_never_called [of "[''b3'']" exApi forkEvents init] by simp

subsection \<open>Repeated submissions\<close>

text \<open>
  Claim C6. A \<^verbatim>\<open>newTransaction\<close> event for a transaction that is pending,
  settled or done returns the state unchanged (so the arrival queue too) and makes no
  call; and after one submission of \<open>t\<close> from any state, a second one changes nothing.
\<close>

theorem known_transaction_is_noop:
  "(t \<in> pendingTxs s \<or> has (settledTxs s) t \<or> t \<in> doneTxs s \<longrightarrow>
      creativedev a (NewTransaction t) s = Some (s, [])) \<and>
   onNewTx t (fst (onNewTx t s)) = (fst (onNewTx t s), [])"
proof
  show "t \<in> pendingTxs s \<or> has (settledTxs s) t \<or> t \<in> doneTxs s \<longrightarrow>
      creativedev a (NewTransaction t) s = Some (s, [])"
    by (auto simp: creativedev_def onNewTx_def)
  show "onNewTx t (fst (onNewTx t s)) = (fst (onNewTx t s), [])"
    by (simp add: onNewTx_def)
qed

theorem known_transaction_is_noop_witness:
  "''t2'' \<in> pendingTxs exState1 \<and>
   creativedev exApi (NewTransaction ''t2'') exState1 = Some (exState1, []) \<and>
   has (settledTxs exState2) ''t2'' \<and>
   creativedev exApi (NewTransaction ''t2'') exState2 = Some (exState2, []) \<and>
   ''t2'' \<in> doneTxs exState3 \<and>
   creativedev exApi (NewTransaction ''t2'') exState3 = Some (exState3, [])"
proof -
  have "''t2'' \<in> pendingTxs exState1" "has (settledTxs exState2) ''t2''"
    "''t2'' \<in> doneTxs exState3"
    by (simp_all add: exState1_def exState2_def exState3_def has_def)
  with known_transaction_is_noop [of "''t2''" exState1 exApi]
    known_transaction_is_noop [of "''t2''" exState2 exApi]
    known_transaction_is_noop [of "''t2''" exState3 exApi]
  show ?thesis by simp
qed

subsection \<open>Disjoint lifecycle collections\<close>

lemma subset_disjoint: "A \<subseteq> K \<Longrightarrow> P \<inter> K = {} \<Longrightarrow> A \<inter> P = {}"
  by blast

lemma settleTx_disjoint:
  assumes "disjointTxs s" "settleTx a b t s = (s', out)"
  shows "disjointTxs s'"
proof (cases "t \<in> settledKeys s \<union> doneTxs s")
  case True
  with assms show ?thesis by (simp add: settleTx_skip)
next
  case False
  with assms(2) have s': "s' = s\<lparr>newTxs := (if t \<in> pendingTxs s then newTxs s else newTxs s @ [t]),
        settledTxs := settledTxs s @ [(t, b)], pendingTxs := pendingTxs s - {t}\<rparr>"
    by (simp add: settleTx_new)
  from assms(1) False show ?thesis unfolding s' disjointTxs_def by auto
qed

lemma settleLoop_disjoint:
  "disjointTxs s \<Longrightarrow> settleLoop a b txs s = (s', out) \<Longrightarrow> disjointTxs s'"
proof (induction txs arbitrary: s out s')
  case Nil
  then show ?case by simp
next
  case (Cons t txs)
  obtain s1 c1 where one: "settleTx a b t s = (s1, c1)" by force
  obtain s2 c2 where rest: "settleLoop a b txs s1 = (s2, c2)" by force
  from Cons.prems(2) one rest have eq: "s' = s2" by simp
  from Cons.IH [OF settleTx_disjoint [OF Cons.prems(1) one] rest] show ?case by (simp add: eq)
qed

lemma doneTx_disjoint:
  assumes "disjointTxs s" "toDone \<inter> pendingTxs s = {}" "doneTx a toDone t s = (s', out)"
  shows "disjointTxs s' \<and> pendingTxs s' = pendingTxs s"
proof (cases "t \<in> toDone")
  case False
  with assms show ?thesis by (simp add: doneTx_skip)
next
  case True
  with assms(3) have s': "s' = s\<lparr>settledTxs := AList.delete t (settledTxs s),
        doneTxs := insert t (doneTxs s)\<rparr>"
    by (simp add: doneTx_hit)
  from assms(1,2) True show ?thesis unfolding s' disjointTxs_def
    by (simp add: keys_delete) blast
qed

lemma doneLoop_disjoint:
  "disjointTxs s \<Longrightarrow> toDone \<inter> pendingTxs s = {} \<Longrightarrow> doneLoop a toDone txs s = (s', out) \<Longrightarrow>
   disjointTxs s'"
proof (induction txs arbitrary: s out s')
  case Nil
  then show ?case by simp
next
  case (Cons t txs)
  obtain s1 c1 where one: "doneTx a toDone t s = (s1, c1)" by force
  obtain s2 c2 where rest: "doneLoop a toDone txs s1 = (s2, c2)" by force
  from Cons.prems(3) one rest have eq: "s' = s2" by simp
  from doneTx_disjoint [OF Cons.prems(1,2) one]
  have d: "disjointTxs s1" and p: "toDone \<inter> pendingTxs s1 = {}"
    using Cons.prems(2) by simp_all
  from Cons.IH [OF d p rest] show ?case by (simp add: eq)
qed

lemma creativedev_disjoint:
  assumes "disjointTxs s" "creativedev a e s = Some (s', out)"
  shows "disjointTxs s'"
proof (cases e)
  case (NewBlock b p)
  let ?s0 = "s\<lparr>blockParents := (blockParents s)(b \<mapsto> p)\<rparr>"
  obtain s1 c1 where loop: "settleLoop a b (getBody a b) ?s0 = (s1, c1)" by force
  with assms(2) NewBlock have eq: "s' = s1" by (simp add: creativedev_def onNewBlock_def)
  from assms(1) have "disjointTxs ?s0" by (simp add: disjointTxs_def)
  from settleLoop_disjoint [OF this loop] show ?thesis by (simp add: eq)
next
  case (NewTransaction t)
  show ?thesis
  proof (cases "t \<in> pendingTxs s \<union> settledKeys s \<union> doneTxs s")
    case True
    with assms NewTransaction show ?thesis by (simp add: creativedev_def onNewTx_known)
  next
    case False
    with assms(2) NewTransaction
    have "s' = s\<lparr>pendingTxs := insert t (pendingTxs s), newTxs := newTxs s @ [t]\<rparr>"
      by (simp add: creativedev_def onNewTx_unknown)
    with assms(1) False show ?thesis by (auto simp: disjointTxs_def)
  qed
next
  case (Finalized b)
  with assms(2) obtain fin where
    loop: "doneLoop a (txsToDone fin (settledTxs s)) (newTxs s) s = (s', out)"
    by (auto simp: creativedev_def onFinalized_def split: option.splits)
  from assms(1) have "pendingTxs s \<inter> settledKeys s = {}" by (simp add: disjointTxs_def)
  with txsToDone_keys [of fin "settledTxs s"]
  have "txsToDone fin (settledTxs s) \<inter> pendingTxs s = {}" by (rule subset_disjoint)
  from doneLoop_disjoint [OF assms(1) this loop] show ?thesis .
qed

text \<open>
  Claim C10. In every state reached from the initial state by a sequence of events,
  \<^verbatim>\<open>pendingTxs\<close>, the keys of \<^verbatim>\<open>settledTxs\<close> and
  \<^verbatim>\<open>doneTxs\<close> are pairwise disjoint; and every handler that starts in a
  state where they are disjoint and returns leaves them disjoint.
\<close>

theorem lifecycle_collections_disjoint:
  "(fst (run a es init) = Some s \<longrightarrow> disjointTxs s) \<and>
   (disjointTxs s0 \<and> creativedev a e s0 = Some (s1, cs) \<longrightarrow> disjointTxs s1)"
proof (intro conjI impI)
  assume r: "fst (run a es init) = Some s"
  from init_inv have i: "tracker_inv init" and t: "trace_inv init []" by simp_all
  from run_state_inv [OF i t r] have "tracker_inv s" by simp
  then show "disjointTxs s" by (simp add: tracker_inv_def)
next
  assume "disjointTxs s0 \<and> creativedev a e s0 = Some (s1, cs)"
  then show "disjointTxs s1" using creativedev_disjoint by blast
qed

theorem lifecycle_collections_disjoint_witness:
  "fst (run exApi [NewTransaction ''t2''] init) = Some exState1 \<and> disjointTxs exState1 \<and>
   creativedev exApi (NewBlock ''b1'' ''g'') exState1 = Some (exState2, take 7 exCalls) \<and>
   disjointTxs exState2"
proof -
  have r: "fst (run exApi [NewTransaction ''t2''] init) = Some exState1"
    by (simp add: exState1_step)
  have st: "creativedev exApi (NewBlock ''b1'' ''g'') exState1 = Some (exState2, take 7 exCalls)"
    by (simp add: creativedev_def exState2_step)
  from lifecycle_collections_disjoint [of exApi "[NewTransaction ''t2'']" exState1 exState1
      "NewBlock ''b1'' ''g''" exState2 "take 7 exCalls"] r st
  show ?thesis by simp
qed

subsection \<open>The ancestry walk\<close>

lemma walk_chain: "chainToRoot m bs h \<Longrightarrow> walk m acc h = Some (acc \<union> set bs)"
proof (induction bs arbitrary: acc h)
  case Nil
  then show ?case by (simp add: walk.simps)
next
  case (Cons b bs)
  then have h: "h = b" "b \<noteq> []" and rest: "chainToRoot m bs (or_empty (m b))" by simp_all
  have "walk m acc h = walk m (insert b acc) (or_empty (m b))"
    using h by (subst walk.simps) simp
  also have "\<dots> = Some (insert b acc \<union> set bs)" by (rule Cons.IH [OF rest])
  finally show ?case by simp
qed

lemma walk_Some_chain:
  assumes "walk m acc h = Some fin"
  shows "\<exists>bs. chainToRoot m bs h"
proof (rule walk.raw_induct [where P = "\<lambda>m acc h fin. \<exists>bs. chainToRoot m bs h"
      and parents = m and finalizedBlocks = acc and current = h and y = fin])
  show "walk m acc h = Some fin" by fact
next
  fix walk' :: "(string \<rightharpoonup> string) \<Rightarrow> string set \<Rightarrow> string \<Rightarrow> string set option"
    and m acc h fin
  assume IH: "\<And>m acc h fin. walk' m acc h = Some fin \<Longrightarrow> \<exists>bs. chainToRoot m bs h"
    and eq: "(if h = [] then Some acc
              else walk' m (insert h acc) (or_empty (m h))) = Some fin"
  show "\<exists>bs. chainToRoot m bs h"
  proof (cases "h = []")
    case True
    then have "chainToRoot m [] h" by simp
    then show ?thesis ..
  next
    case False
    with eq have "walk' m (insert h acc) (or_empty (m h)) = Some fin" by simp
    then have "\<exists>bs. chainToRoot m bs (or_empty (m h))" by (rule IH)
    then obtain bs where "chainToRoot m bs (or_empty (m h))" ..
    with False have "chainToRoot m (h # bs) h" by simp
    then show ?thesis ..
  qed
qed

lemma no_chain_on_self_loop: "\<not> chainToRoot [''a'' \<mapsto> ''a''] bs ''a''"
  by (induction bs) (auto simp: or_empty_def)

lemma walk_self_loop: "walk [''a'' \<mapsto> ''a''] acc ''a'' = None"
proof (cases "walk [''a'' \<mapsto> ''a''] acc ''a''")
  case None
  then show ?thesis .
next
  case (Some fin)
  from walk_Some_chain [OF this] no_chain_on_self_loop show ?thesis by blast
qed

lemma cycleState_step: "creativedev exApi (NewBlock ''a'' ''a'') init = Some (cycleState, [GetBody ''a''])"
  by (simp add: exApi_def cycleState_def creativedev_def onNewBlock_def init_def)

text \<open>
  Claim C9, as the code has it. The claim says the walk is guarded and ends even on a
  cycle of parent links. The loop has no guard: after \<open>NewBlock a a\<close> the walk from
  \<open>a\<close> never ends, so the \<^verbatim>\<open>finalized\<close> handler and the run do not return.
\<close>

theorem walk_cycle_counterexample:
  "fst (run exApi [NewBlock ''a'' ''a''] init) = Some cycleState \<and>
   walk (blockParents cycleState) {} ''a'' = None \<and>
   onFinalized exApi ''a'' cycleState = None \<and>
   fst (run exApi [NewBlock ''a'' ''a'', Finalized ''a''] init) = None"
proof -
  have w: "walk (blockParents cycleState) {} ''a'' = None"
    by (simp add: cycleState_def walk_self_loop)
  then have f: "onFinalized exApi ''a'' cycleState = None" by (simp add: onFinalized_def)
  then have "creativedev exApi (Finalized ''a'') cycleState = None" by (simp add: creativedev_def)
  with w f show ?thesis by (simp add: cycleState_step)
qed

text \<open>
  Claim C9, amended. The walk ends when following the recorded parent links from the
  finalized block reaches a block with no recorded parent (or with the empty string as
  recorded parent), and then returns the blocks on the way added to the accumulator; and
  it ends only then: there is no guard against a cycle.
\<close>

theorem walk_terminates_iff_chain:
  "(chainToRoot m bs h \<longrightarrow> walk m acc h = Some (acc \<union> set bs)) \<and>
   ((\<exists>fin. walk m acc h = Some fin) \<longrightarrow> (\<exists>bs. chainToRoot m bs h))"
  using walk_chain walk_Some_chain by blast

theorem walk_terminates_iff_chain_witness:
  "chainToRoot (blockParents exState2) [''b1'', ''g''] ''b1'' \<and>
   walk (blockParents exState2) {} ''b1'' = Some ({} \<union> set [''b1'', ''g''])"
proof -
  have "chainToRoot (blockParents exState2) [''b1'', ''g''] ''b1''"
    by (simp add: exState2_def or_empty_def)
  with walk_terminates_iff_chain [of "blockParents exState2" "[''b1'', ''g'']" "''b1''" "{}"]
  show ?thesis by simp
qed

subsection \<open>Finalizing through a gap\<close>







lemma key_member: "(t, b) \<in> set al \<Longrightarrow> t \<in> fst ` set al"
  by (rule image_eqI [where x = "(t, b)"]) simp_all






subsection \<open>Finalizing a block that was never announced\<close>

lemma settleTx_blockParents: "settleTx a b t s = (s', out) \<Longrightarrow> blockParents s' = blockParents s"
  by (auto simp: settleTx_def Let_def split: if_splits)

lemma settleLoop_blockParents:
  "settleLoop a b txs s = (s', out) \<Longrightarrow> blockParents s' = blockParents s"
proof (induction txs arbitrary: s out s')
  case Nil
  then show ?case by simp
next
  case (Cons t txs)
  obtain s1 c1 where one: "settleTx a b t s = (s1, c1)" by force
  obtain s2 c2 where rest: "settleLoop a b txs s1 = (s2, c2)" by force
  from Cons.prems one rest have eq: "s' = s2" by simp
  from settleTx_blockParents [OF one] Cons.IH [OF rest] show ?case by (simp add: eq)
qed

lemma doneTx_blockParents: "doneTx a toDone t s = (s', out) \<Longrightarrow> blockParents s' = blockParents s"
  by (auto simp: doneTx_def Let_def split: if_splits)

lemma doneLoop_blockParents:
  "doneLoop a toDone txs s = (s', out) \<Longrightarrow> blockParents s' = blockParents s"
proof (induction txs arbitrary: s out s')
  case Nil
  then show ?case by simp
next
  case (Cons t txs)
  obtain s1 c1 where one: "doneTx a toDone t s = (s1, c1)" by force
  obtain s2 c2 where rest: "doneLoop a toDone txs s1 = (s2, c2)" by force
  from Cons.prems one rest have eq: "s' = s2" by simp
  from doneTx_blockParents [OF one] Cons.IH [OF rest] show ?case by (simp add: eq)
qed

lemma creativedev_unseen:
  assumes "creativedev a e s = Some (s', out)" "\<forall>p. e \<noteq> NewBlock h p" "blockParents s h = None"
  shows "blockParents s' h = None"
proof (cases e)
  case (NewBlock b p)
  let ?s0 = "s\<lparr>blockParents := (blockParents s)(b \<mapsto> p)\<rparr>"
  obtain s1 c1 where loop: "settleLoop a b (getBody a b) ?s0 = (s1, c1)" by force
  with assms(1) NewBlock have eq: "s' = s1" by (simp add: creativedev_def onNewBlock_def)
  from assms(2) NewBlock have "b \<noteq> h" by auto
  with settleLoop_blockParents [OF loop] assms(3) show ?thesis by (simp add: eq)
next
  case (NewTransaction t)
  with assms(1) have "blockParents s' = blockParents s"
    by (auto simp: creativedev_def onNewTx_def split: if_splits)
  with assms(3) show ?thesis by simp
next
  case (Finalized b)
  with assms(1) obtain fin where
    "doneLoop a (txsToDone fin (settledTxs s)) (newTxs s) s = (s', out)"
    by (auto simp: creativedev_def onFinalized_def split: option.splits)
  from doneLoop_blockParents [OF this] assms(3) show ?thesis by simp
qed

lemma run_unseen:
  "fst (run a es s) = Some s' \<Longrightarrow> \<forall>p. NewBlock h p \<notin> set es \<Longrightarrow> blockParents s h = None \<Longrightarrow>
   blockParents s' h = None"
proof (induction es arbitrary: s)
  case Nil
  then show ?case by simp
next
  case (Cons e es)
  show ?case
  proof (cases "creativedev a e s")
    case None
    with Cons.prems(1) show ?thesis by simp
  next
    case (Some r)
    obtain s1 c1 where r: "r = (s1, c1)" by force
    from Cons.prems(1) Some r have run: "fst (run a es s1) = Some s'" by (simp add: split_beta)
    from Cons.prems(2) have e: "\<forall>p. e \<noteq> NewBlock h p" and es: "\<forall>p. NewBlock h p \<notin> set es"
      by auto
    from creativedev_unseen [OF Some [unfolded r] e Cons.prems(3)]
    have "blockParents s1 h = None" .
    from Cons.IH [OF run es this] show ?thesis .
  qed
qed

lemma doneLoop_nothing: "toDone \<inter> set txs = {} \<Longrightarrow> doneLoop a toDone txs s = (s, [])"
  by (induction txs arbitrary: s) (simp_all add: doneTx_skip)

lemma txsToDone_unseen:
  assumes "snd ` set al \<subseteq> dom m" "\<forall>b\<in>fin. m b = None"
  shows "txsToDone fin al = {}"
proof -
  have "filter (\<lambda>(t, b). b \<in> fin) al = []"
    unfolding filter_empty_conv using assms by (auto simp: subset_iff image_iff) 
  then show ?thesis by (simp add: txsToDone_def)
qed

lemma walk_no_parent: "m h = None \<Longrightarrow> walk m {} h = Some (if h = [] then {} else {h})"
  by (subst walk.simps) (simp add: or_empty_def walk.simps)

lemma exState2_event:
  "creativedev exApi (NewBlock ''b1'' ''g'') exState1 = Some (exState2, take 7 exCalls)"
  by (simp add: creativedev_def exState2_step)

text \<open>
  Claim C7, as the code has it. The claim says the walk from a block never announced is
  empty. The loop adds the starting block before it looks for a parent: from the initial
  state the walk from \<open>b9\<close> returns the set holding \<open>b9\<close>.
\<close>

theorem unseen_block_walk_counterexample:
  "fst (run exApi [] init) = Some init \<and> (\<forall>p. NewBlock ''b9'' p \<notin> set []) \<and>
   walk (blockParents init) {} ''b9'' = Some {''b9''}"
  by (simp add: init_def walk.simps or_empty_def)

text \<open>
  Claim C7, amended. In a state reached from the initial state by events with no
  \<open>NewBlock\<close> for \<open>h\<close>, the walk of \<open>Finalized h\<close> follows no parent link and
  returns only \<open>h\<close> itself (nothing when \<open>h\<close> is the empty string), and the handler
  returns with the state unchanged and no call made: no transaction becomes done.
\<close>

theorem unseen_block_finalized:
  "fst (run a es init) = Some s \<and> (\<forall>p. NewBlock h p \<notin> set es) \<longrightarrow>
     walk (blockParents s) {} h = Some (if h = [] then {} else {h}) \<and>
     onFinalized a h s = Some (s, [])"
proof (intro impI, elim conjE)
  assume r: "fst (run a es init) = Some s" and un: "\<forall>p. NewBlock h p \<notin> set es"
  have "blockParents init h = None" by (simp add: init_def)
  from run_unseen [OF r un this] have none: "blockParents s h = None" .
  then have w: "walk (blockParents s) {} h = Some (if h = [] then {} else {h})"
    by (rule walk_no_parent)
  from init_inv have i: "tracker_inv init" and ti: "trace_inv init []" by simp_all
  from run_state_inv [OF i ti r] have "snd ` set (settledTxs s) \<subseteq> dom (blockParents s)"
    by (simp add: tracker_inv_def)
  moreover from none have "\<forall>b\<in>(if h = [] then {} else {h}). blockParents s b = None" by simp
  ultimately have "txsToDone (if h = [] then {} else {h}) (settledTxs s) = {}"
    by (rule txsToDone_unseen)
  with w have "onFinalized a h s = Some (s, [])"
    by (simp add: onFinalized_def doneLoop_nothing)
  with w show "walk (blockParents s) {} h = Some (if h = [] then {} else {h}) \<and>
     onFinalized a h s = Some (s, [])" by simp
qed

theorem unseen_block_finalized_witness:
  "fst (run exApi [NewTransaction ''t2'', NewBlock ''b1'' ''g''] init) = Some exState2 \<and>
   walk (blockParents exState2) {} ''b9'' = Some {''b9''} \<and>
   onFinalized exApi ''b9'' exState2 = Some (exState2, [])"
proof -
  have r: "fst (run exApi [NewTransaction ''t2'', NewBlock ''b1'' ''g''] init) = Some exState2"
    by (simp add: exState1_step exState2_event)
  have "\<forall>p. NewBlock ''b9'' p \<notin> set [NewTransaction ''t2'', NewBlock ''b1'' ''g'']" by simp
  with unseen_block_finalized [of exApi "[NewTransaction ''t2'', NewBlock ''b1'' ''g'']"
      exState2 "''b9''"] r
  show ?thesis by simp
qed

subsection \<open>First settlement wins\<close>

lemma keeps_refl: "keeps s s"
  by (simp add: keeps_def)

lemma keeps_trans:
  assumes "keeps s s1" "keeps s1 s2"
  shows "keeps s s2"
  unfolding keeps_def
proof (intro conjI allI impI)
  from assms show "doneTxs s \<subseteq> doneTxs s2" unfolding keeps_def by (meson subset_trans)
next
  fix t b assume "map_of (settledTxs s) t = Some b"
  with assms(1) have "map_of (settledTxs s1) t = Some b \<or> t \<in> doneTxs s1"
    by (simp only: keeps_def)
  then show "map_of (settledTxs s2) t = Some b \<or> t \<in> doneTxs s2"
  proof
    assume "map_of (settledTxs s1) t = Some b"
    with assms(2) show ?thesis by (simp only: keeps_def)
  next
    assume "t \<in> doneTxs s1"
    moreover from assms(2) have "doneTxs s1 \<subseteq> doneTxs s2" by (simp only: keeps_def)
    ultimately show ?thesis by blast
  qed
qed

lemma key_has_value: "t \<in> fst ` set al \<Longrightarrow> \<exists>b. map_of al t = Some b"
  using map_of_eq_None_iff [of al t] by auto

lemma value_has_key: "map_of al t = Some b \<Longrightarrow> t \<in> fst ` set al"
  using map_of_eq_None_iff [of al t] by auto

lemma keeps_known:
  assumes "keeps s s'"
  shows "settledKeys s \<union> doneTxs s \<subseteq> settledKeys s' \<union> doneTxs s'"
proof
  fix t assume "t \<in> settledKeys s \<union> doneTxs s"
  then show "t \<in> settledKeys s' \<union> doneTxs s'"
  proof
    assume "t \<in> settledKeys s"
    from key_has_value [OF this] obtain b where "map_of (settledTxs s) t = Some b" ..
    with assms have "map_of (settledTxs s') t = Some b \<or> t \<in> doneTxs s'"
      by (simp only: keeps_def)
    then show ?thesis
    proof
      assume "map_of (settledTxs s') t = Some b"
      then have "t \<in> settledKeys s'" by (rule value_has_key)
      then show ?thesis by simp
    next
      assume "t \<in> doneTxs s'"
      then show ?thesis by simp
    qed
  next
    assume "t \<in> doneTxs s"
    moreover from assms have "doneTxs s \<subseteq> doneTxs s'" by (simp only: keeps_def)
    ultimately show ?thesis by blast
  qed
qed

lemma quiet_Nil: "quiet s []"
  by (simp add: quiet_def nSettled_def)

lemma quiet_append:
  assumes "quiet s c1" "keeps s s1" "quiet s1 c2"
  shows "quiet s (c1 @ c2)"
  unfolding quiet_def
proof
  fix t assume t: "t \<in> settledKeys s \<union> doneTxs s"
  with assms(1) have "nSettled t c1 = 0" by (simp only: quiet_def)
  moreover from t keeps_known [OF assms(2)] have "t \<in> settledKeys s1 \<union> doneTxs s1" by (rule subsetD [rotated])
  with assms(3) have "nSettled t c2 = 0" by (simp only: quiet_def)
  ultimately show "nSettled t (c1 @ c2) = 0" by (simp add: nSettled_append)
qed

lemma settleTx_keeps:
  assumes "settleTx a b x s = (s', out)"
  shows "keeps s s' \<and> quiet s out"
proof (cases "x \<in> settledKeys s \<union> doneTxs s")
  case True
  with assms show ?thesis by (simp add: settleTx_skip keeps_refl quiet_Nil)
next
  case False
  with assms have s': "s' = s\<lparr>newTxs := (if x \<in> pendingTxs s then newTxs s else newTxs s @ [x]),
        settledTxs := settledTxs s @ [(x, b)], pendingTxs := pendingTxs s - {x}\<rparr>"
    and out: "out = report a OnTxSettled b x"
    by (simp_all add: settleTx_new)
  have "keeps s s'" unfolding s' keeps_def by (simp add: map_add_def)
  moreover have "quiet s out" unfolding out quiet_def
  proof
    fix t assume "t \<in> settledKeys s \<union> doneTxs s"
    with False have "x \<noteq> t" by blast
    then show "nSettled t (report a OnTxSettled b x) = 0" by (simp add: nSettled_report_settled)
  qed
  ultimately show ?thesis by simp
qed

lemma doneTx_keeps:
  assumes "doneTx a toDone x s = (s', out)"
  shows "keeps s s' \<and> quiet s out"
proof (cases "x \<in> toDone")
  case False
  with assms show ?thesis by (simp add: doneTx_skip keeps_refl quiet_Nil)
next
  case True
  with assms have s': "s' = s\<lparr>settledTxs := AList.delete x (settledTxs s),
        doneTxs := insert x (doneTxs s)\<rparr>"
    and out: "out = report a OnTxDone (or_empty (map_of (settledTxs s) x)) x"
    by (simp_all add: doneTx_hit)
  have "keeps s s'" unfolding s' keeps_def by (simp add: AList.delete_conv' subset_insertI)
  moreover have "quiet s out" unfolding out quiet_def by (simp add: nSettled_report_done)
  ultimately show ?thesis by simp
qed

lemma settleLoop_keeps:
  "settleLoop a b txs s = (s', out) \<Longrightarrow> keeps s s' \<and> quiet s out"
proof (induction txs arbitrary: s out s')
  case Nil
  then show ?case by (simp add: keeps_refl quiet_Nil)
next
  case (Cons x txs)
  obtain s1 c1 where one: "settleTx a b x s = (s1, c1)" by force
  obtain s2 c2 where rest: "settleLoop a b txs s1 = (s2, c2)" by force
  from Cons.prems one rest have eq: "s' = s2" "out = c1 @ c2" by simp_all
  from settleTx_keeps [OF one] have k1: "keeps s s1" and q1: "quiet s c1" by simp_all
  from Cons.IH [OF rest] have k2: "keeps s1 s2" and q2: "quiet s1 c2" by simp_all
  from keeps_trans [OF k1 k2] quiet_append [OF q1 k1 q2] show ?case by (simp add: eq)
qed

lemma doneLoop_keeps:
  "doneLoop a toDone txs s = (s', out) \<Longrightarrow> keeps s s' \<and> quiet s out"
proof (induction txs arbitrary: s out s')
  case Nil
  then show ?case by (simp add: keeps_refl quiet_Nil)
next
  case (Cons x txs)
  obtain s1 c1 where one: "doneTx a toDone x s = (s1, c1)" by force
  obtain s2 c2 where rest: "doneLoop a toDone txs s1 = (s2, c2)" by force
  from Cons.prems one rest have eq: "s' = s2" "out = c1 @ c2" by simp_all
  from doneTx_keeps [OF one] have k1: "keeps s s1" and q1: "quiet s c1" by simp_all
  from Cons.IH [OF rest] have k2: "keeps s1 s2" and q2: "quiet s1 c2" by simp_all
  from keeps_trans [OF k1 k2] quiet_append [OF q1 k1 q2] show ?case by (simp add: eq)
qed

lemma creativedev_keeps:
  assumes "creativedev a e s = Some (s', out)"
  shows "keeps s s' \<and> quiet s out"
proof (cases e)
  case (NewBlock b p)
  let ?s0 = "s\<lparr>blockParents := (blockParents s)(b \<mapsto> p)\<rparr>"
  obtain s1 c1 where loop: "settleLoop a b (getBody a b) ?s0 = (s1, c1)" by force
  with assms NewBlock have eq: "s' = s1" "out = [GetBody b] @ c1"
    by (simp_all add: creativedev_def onNewBlock_def)
  have k0: "keeps s ?s0" by (simp add: keeps_def)
  have q0: "quiet s [GetBody b]" by (simp add: quiet_def nSettled_def)
  from settleLoop_keeps [OF loop] have k1: "keeps ?s0 s1" and q1: "quiet ?s0 c1" by simp_all
  from keeps_trans [OF k0 k1] quiet_append [OF q0 k0 q1] show ?thesis by (simp only: eq)
next
  case (NewTransaction t)
  with assms have tx: "onNewTx t s = (s', out)" by (simp add: creativedev_def)
  have "settledTxs s' = settledTxs s \<and> doneTxs s' = doneTxs s \<and> out = []"
  proof (cases "t \<in> pendingTxs s \<union> settledKeys s \<union> doneTxs s")
    case True
    with tx show ?thesis by (simp add: onNewTx_known)
  next
    case False
    with tx show ?thesis by (auto simp add: onNewTx_unknown)
  qed
  then show ?thesis by (simp add: keeps_def quiet_Nil)
next
  case (Finalized b)
  with assms obtain fin where
    "doneLoop a (txsToDone fin (settledTxs s)) (newTxs s) s = (s', out)"
    by (auto simp: creativedev_def onFinalized_def split: option.splits)
  then show ?thesis by (rule doneLoop_keeps)
qed

lemma run_keeps:
  "run a es s = (r, cs) \<Longrightarrow> quiet s cs \<and> (\<forall>s'. r = Some s' \<longrightarrow> keeps s s')"
proof (induction es arbitrary: s r cs)
  case Nil
  then show ?case by (auto simp: quiet_Nil keeps_refl)
next
  case (Cons e es)
  show ?case
  proof (cases "creativedev a e s")
    case None
    with Cons.prems show ?thesis by (auto simp: quiet_Nil)
  next
    case (Some x)
    obtain s1 c1 where x: "x = (s1, c1)" by force
    obtain r2 c2 where rest: "run a es s1 = (r2, c2)" by force
    from Cons.prems Some x rest have eq: "r = r2" "cs = c1 @ c2" by simp_all
    from creativedev_keeps [OF Some [unfolded x]] have k1: "keeps s s1" and q1: "quiet s c1"
      by simp_all
    from Cons.IH [OF rest] have q2: "quiet s1 c2" and k2: "\<forall>s'. r2 = Some s' \<longrightarrow> keeps s1 s'"
      by simp_all
    from k2 keeps_trans [OF k1] have "\<forall>s'. r2 = Some s' \<longrightarrow> keeps s s'" by blast
    with quiet_append [OF q1 k1 q2] show ?thesis by (simp add: eq)
  qed
qed

lemma run_disjoint:
  "disjointTxs s \<Longrightarrow> fst (run a es s) = Some s' \<Longrightarrow> disjointTxs s'"
proof (induction es arbitrary: s)
  case Nil
  then show ?case by simp
next
  case (Cons e es)
  show ?case
  proof (cases "creativedev a e s")
    case None
    with Cons.prems(2) show ?thesis by simp
  next
    case (Some x)
    obtain s1 c1 where x: "x = (s1, c1)" by force
    from Cons.prems(2) Some x have "fst (run a es s1) = Some s'" by (simp add: split_beta)
    from Cons.IH [OF creativedev_disjoint [OF Cons.prems(1) Some [unfolded x]] this]
    show ?thesis .
  qed
qed

text \<open>
  Claim C8. From a state \<open>s\<close> reached from the initial state, over any further events:
  a transaction settled or done in \<open>s\<close> gets no further \<^verbatim>\<open>onTxSettled\<close>
  (it is skipped in every later block body); a done transaction stays done and is neither
  settled nor pending again; a settled transaction is never pending again and keeps the
  settlement block recorded for it until it becomes done, when its entry is dropped.
\<close>

theorem first_settlement_wins:
  "fst (run a es init) = Some s \<and> run a later s = (r, cs) \<longrightarrow>
     (t \<in> settledKeys s \<union> doneTxs s \<longrightarrow> nSettled t cs = 0) \<and>
     (\<forall>s'. r = Some s' \<longrightarrow>
        (t \<in> doneTxs s \<longrightarrow> t \<in> doneTxs s' \<and> t \<notin> settledKeys s' \<and> t \<notin> pendingTxs s') \<and>
        (map_of (settledTxs s) t = Some b \<longrightarrow>
           t \<notin> pendingTxs s' \<and>
           (map_of (settledTxs s') t = Some b \<or> t \<in> doneTxs s' \<and> t \<notin> settledKeys s')))"
proof (intro impI, elim conjE)
  assume reach: "fst (run a es init) = Some s" and run: "run a later s = (r, cs)"
  from init_inv have i: "tracker_inv init" and ti: "trace_inv init []" by simp_all
  from run_state_inv [OF i ti reach] have d: "disjointTxs s" by (simp add: tracker_inv_def)
  from run_keeps [OF run] have q: "quiet s cs" and k: "\<forall>s'. r = Some s' \<longrightarrow> keeps s s'"
    by simp_all
  from q have skip: "t \<in> settledKeys s \<union> doneTxs s \<longrightarrow> nSettled t cs = 0"
    by (simp add: quiet_def)
  have "(t \<in> doneTxs s \<longrightarrow> t \<in> doneTxs s' \<and> t \<notin> settledKeys s' \<and> t \<notin> pendingTxs s') \<and>
        (map_of (settledTxs s) t = Some b \<longrightarrow>
           t \<notin> pendingTxs s' \<and>
           (map_of (settledTxs s') t = Some b \<or> t \<in> doneTxs s' \<and> t \<notin> settledKeys s'))"
    if r: "r = Some s'" for s'
  proof -
    from k r have ks: "keeps s s'" by simp
    from run r have "fst (run a later s) = Some s'" by simp
    from run_disjoint [OF d this] have d': "disjointTxs s'" .
    have 1: "t \<in> doneTxs s' \<and> t \<notin> settledKeys s' \<and> t \<notin> pendingTxs s'" if "t \<in> doneTxs s'"
      using that d' unfolding disjointTxs_def by blast
    have 2: "t \<notin> pendingTxs s'" if "map_of (settledTxs s') t = Some b"
      using value_has_key [OF that] d' unfolding disjointTxs_def by blast
    from ks have kd: "t \<in> doneTxs s \<longrightarrow> t \<in> doneTxs s'" by (auto simp: keeps_def)
    from ks have km: "map_of (settledTxs s) t = Some b \<longrightarrow>
        map_of (settledTxs s') t = Some b \<or> t \<in> doneTxs s'" by (simp add: keeps_def)
    from kd km 1 2 show ?thesis by blast
  qed
  with skip show "(t \<in> settledKeys s \<union> doneTxs s \<longrightarrow> nSettled t cs = 0) \<and>
     (\<forall>s'. r = Some s' \<longrightarrow>
        (t \<in> doneTxs s \<longrightarrow> t \<in> doneTxs s' \<and> t \<notin> settledKeys s' \<and> t \<notin> pendingTxs s') \<and>
        (map_of (settledTxs s) t = Some b \<longrightarrow>
           t \<notin> pendingTxs s' \<and>
           (map_of (settledTxs s') t = Some b \<or> t \<in> doneTxs s' \<and> t \<notin> settledKeys s')))"
    by blast
qed

lemma exState2b_run: "run exApi [NewBlock ''b4'' ''b1''] exState2 = (Some exState2b, [GetBody ''b4''])"
  by (simp add: exApi_def exState2_def exState2b_def eval_defs)

theorem first_settlement_wins_witness:
  "fst (run exApi [NewTransaction ''t2'', NewBlock ''b1'' ''g''] init) = Some exState2 \<and>
   run exApi [NewBlock ''b4'' ''b1''] exState2 = (Some exState2b, [GetBody ''b4'']) \<and>
   getBody exApi ''b4'' = [''t1''] \<and>
   map_of (settledTxs exState2) ''t1'' = Some ''b1'' \<and>
   nSettled ''t1'' [GetBody ''b4''] = 0 \<and>
   ''t1'' \<notin> pendingTxs exState2b \<and>
   map_of (settledTxs exState2b) ''t1'' = Some ''b1''"
proof -
  have r: "fst (run exApi [NewTransaction ''t2'', NewBlock ''b1'' ''g''] init) = Some exState2"
    by (simp add: exState1_step exState2_event)
  have m: "map_of (settledTxs exState2) ''t1'' = Some ''b1''" by (simp add: exState2_def)
  have n: "''t1'' \<notin> doneTxs exState2b" by (simp add: exState2b_def)
  have bd: "getBody exApi ''b4'' = [''t1'']" by (simp add: exApi_def)
  from first_settlement_wins [of exApi "[NewTransaction ''t2'', NewBlock ''b1'' ''g'']" exState2
      "[NewBlock ''b4'' ''b1'']" "Some exState2b" "[GetBody ''b4'']" "''t1''" "''b1''"]
    r exState2b_run m n bd
  show ?thesis by (simp add: nSettled_def)
qed

subsection \<open>Callbacks name the settlement block\<close>

lemma nSettledAt_le: "nSettledAt b t cs \<le> nSettled t cs"
proof (induction cs)
  case Nil
  then show ?case by (simp add: nSettledAt_def nSettled_def)
next
  case (Cons c cs)
  then show ?case by (cases c) (auto simp: nSettledAt_def nSettled_def)
qed

lemma nDoneAt_le: "nDoneAt b t cs \<le> nDone t cs"
proof (induction cs)
  case Nil
  then show ?case by (simp add: nDoneAt_def nDone_def)
next
  case (Cons c cs)
  then show ?case by (cases c) (auto simp: nDoneAt_def nDone_def)
qed

lemma nSettledAt_append: "nSettledAt b t (xs @ ys) = nSettledAt b t xs + nSettledAt b t ys"
  by (simp add: nSettledAt_def)

lemma nDoneAt_append: "nDoneAt b t (xs @ ys) = nDoneAt b t xs + nDoneAt b t ys"
  by (simp add: nDoneAt_def)

lemma nAt_report_settled:
  "nSettledAt b t (report a OnTxSettled b' t') = (if t' = t \<and> b' = b then 1 else 0)"
  "nDoneAt b t (report a OnTxSettled b' t') = 0"
  by (simp_all add: report_def nSettledAt_def nDoneAt_def)

lemma nAt_report_done:
  "nSettledAt b t (report a OnTxDone b' t') = 0"
  "nDoneAt b t (report a OnTxDone b' t') = (if t' = t \<and> b' = b then 1 else 0)"
  by (simp_all add: report_def nSettledAt_def nDoneAt_def)

lemma settleTx_pair_inv:
  assumes "trace_inv s cs" "pair_inv s cs" "settleTx a b x s = (s', out)"
  shows "pair_inv s' (cs @ out)"
proof (cases "x \<in> settledKeys s \<union> doneTxs s")
  case True
  with assms show ?thesis by (simp add: settleTx_skip)
next
  case False
  with assms(3) have st: "settledTxs s' = settledTxs s @ [(x, b)]"
    and out: "out = report a OnTxSettled b x"
    by (auto simp: settleTx_new)
  from False assms(1) have "nSettled x cs = 0" by (simp add: trace_inv_def)
  with nSettledAt_le [of b x cs] have zero: "nSettledAt b x cs = 0" by simp
  show ?thesis unfolding pair_inv_def
  proof (intro conjI allI impI)
    fix t b' assume "(t, b') \<in> set (settledTxs s')"
    then have "(t, b') \<in> set (settledTxs s) \<or> (t = x \<and> b' = b)" by (auto simp: st)
    then show "nSettledAt b' t (cs @ out) = 1"
    proof
      assume old: "(t, b') \<in> set (settledTxs s)"
      then have "t \<in> settledKeys s" by (rule key_member)
      with False have "x \<noteq> t" by blast
      moreover from old assms(2) have "nSettledAt b' t cs = 1" by (simp add: pair_inv_def)
      ultimately show ?thesis by (simp add: out nSettledAt_append nAt_report_settled)
    next
      assume "t = x \<and> b' = b"
      with zero show ?thesis by (simp add: out nSettledAt_append nAt_report_settled)
    qed
  next
    fix t b'
    from assms(2) have "nDoneAt b' t cs \<le> nSettledAt b' t cs" by (simp add: pair_inv_def)
    then show "nDoneAt b' t (cs @ out) \<le> nSettledAt b' t (cs @ out)"
      by (simp add: out nSettledAt_append nDoneAt_append nAt_report_settled)
  qed
qed

lemma doneTx_pair_inv:
  assumes "trace_inv s cs" "pair_inv s cs"
    "x \<in> toDone \<longrightarrow> x \<in> settledKeys s \<and> x \<notin> doneTxs s"
    "doneTx a toDone x s = (s', out)"
  shows "pair_inv s' (cs @ out)"
proof (cases "x \<in> toDone")
  case False
  with assms show ?thesis by (simp add: doneTx_skip)
next
  case True
  with assms(3) have k: "x \<in> settledKeys s" and nd: "x \<notin> doneTxs s" by simp_all
  from key_has_value [OF k] obtain b0 where m: "map_of (settledTxs s) x = Some b0" ..
  then have mem: "(x, b0) \<in> set (settledTxs s)" by (rule map_of_SomeD)
  from m have oe: "or_empty (map_of (settledTxs s) x) = b0" by (simp add: or_empty_def)
  from True assms(4) have st: "settledTxs s' = AList.delete x (settledTxs s)"
    and out: "out = report a OnTxDone b0 x"
    by (auto simp: doneTx_hit oe)
  from nd assms(1) have "nDone x cs = 0" by (simp add: trace_inv_def)
  with nDoneAt_le [of b0 x cs] have zero: "nDoneAt b0 x cs = 0" by simp
  from mem assms(2) have one: "nSettledAt b0 x cs = 1" by (simp add: pair_inv_def)
  show ?thesis unfolding pair_inv_def
  proof (intro conjI allI impI)
    fix t b' assume "(t, b') \<in> set (settledTxs s')"
    with set_delete [of x "settledTxs s"] have "(t, b') \<in> set (settledTxs s)"
      unfolding st by (rule subsetD)
    with assms(2) have "nSettledAt b' t cs = 1" by (simp add: pair_inv_def)
    then show "nSettledAt b' t (cs @ out) = 1"
      by (simp add: out nSettledAt_append nAt_report_done)
  next
    fix t b'
    from assms(2) have le: "nDoneAt b' t cs \<le> nSettledAt b' t cs" by (simp add: pair_inv_def)
    show "nDoneAt b' t (cs @ out) \<le> nSettledAt b' t (cs @ out)"
    proof (cases "t = x \<and> b' = b0")
      case True
      with zero one show ?thesis
        by (simp add: out nSettledAt_append nDoneAt_append nAt_report_done)
    next
      case False
      with le show ?thesis
        by (auto simp: out nSettledAt_append nDoneAt_append nAt_report_done)
    qed
  qed
qed

lemma settleLoop_pair_inv:
  "tracker_inv s \<Longrightarrow> trace_inv s cs \<Longrightarrow> pair_inv s cs \<Longrightarrow> b \<in> dom (blockParents s) \<Longrightarrow>
   settleLoop a b txs s = (s', out) \<Longrightarrow> pair_inv s' (cs @ out)"
proof (induction txs arbitrary: s cs out s')
  case Nil
  then show ?case by simp
next
  case (Cons x txs)
  obtain s1 c1 where one: "settleTx a b x s = (s1, c1)" by force
  obtain s2 c2 where rest: "settleLoop a b txs s1 = (s2, c2)" by force
  from Cons.prems(5) one rest have eq: "s' = s2" "out = c1 @ c2" by simp_all
  from settleTx_tracker_inv [OF Cons.prems(1,4) one]
  have i1: "tracker_inv s1" and bp: "b \<in> dom (blockParents s1)" using Cons.prems(4) by simp_all
  from settleTx_trace_inv [OF Cons.prems(2) one] have t1: "trace_inv s1 (cs @ c1)" .
  from settleTx_pair_inv [OF Cons.prems(2,3) one] have p1: "pair_inv s1 (cs @ c1)" .
  from Cons.IH [OF i1 t1 p1 bp rest] show ?case by (simp add: eq)
qed

lemma doneLoop_pair_inv:
  "tracker_inv s \<Longrightarrow> trace_inv s cs \<Longrightarrow> pair_inv s cs \<Longrightarrow> distinct txs \<Longrightarrow>
   toDone \<inter> set txs \<subseteq> settledKeys s \<Longrightarrow> doneLoop a toDone txs s = (s', out) \<Longrightarrow>
   pair_inv s' (cs @ out)"
proof (induction txs arbitrary: s cs out s')
  case Nil
  then show ?case by simp
next
  case (Cons t txs)
  obtain s1 c1 where one: "doneTx a toDone t s = (s1, c1)" by force
  obtain s2 c2 where rest: "doneLoop a toDone txs s1 = (s2, c2)" by force
  from Cons.prems(6) one rest have eq: "s' = s2" "out = c1 @ c2" by simp_all
  from Cons.prems(5) have hit: "t \<in> toDone \<longrightarrow> t \<in> settledKeys s" by auto
  from Cons.prems(1) hit have hit': "t \<in> toDone \<longrightarrow> t \<in> settledKeys s \<and> t \<notin> doneTxs s"
    by (auto simp: tracker_inv_def disjointTxs_def)
  from doneTx_tracker_inv [OF Cons.prems(1) hit one]
  have i1: "tracker_inv s1"
    and keys: "settledKeys s1 = (if t \<in> toDone then settledKeys s - {t} else settledKeys s)"
    by simp_all
  from doneTx_trace_inv [OF Cons.prems(2) hit' one] have t1: "trace_inv s1 (cs @ c1)" .
  from doneTx_pair_inv [OF Cons.prems(2,3) hit' one] have p1: "pair_inv s1 (cs @ c1)" .
  from Cons.prems(4) have d: "distinct txs" and nt: "t \<notin> set txs" by simp_all
  from Cons.prems(5) nt have sub: "toDone \<inter> set txs \<subseteq> settledKeys s1"
    unfolding keys by auto
  from Cons.IH [OF i1 t1 p1 d sub rest] show ?case by (simp add: eq)
qed

lemma creativedev_pair_inv:
  assumes "tracker_inv s" "trace_inv s cs" "pair_inv s cs" "creativedev a e s = Some (s', out)"
  shows "pair_inv s' (cs @ out)"
proof (cases e)
  case (NewBlock b p)
  let ?s0 = "s\<lparr>blockParents := (blockParents s)(b \<mapsto> p)\<rparr>"
  obtain s1 c1 where loop: "settleLoop a b (getBody a b) ?s0 = (s1, c1)" by force
  with assms(4) NewBlock have eq: "s' = s1" "out = GetBody b # c1"
    by (simp_all add: creativedev_def onNewBlock_def)
  from assms(1) have i0: "tracker_inv ?s0"
    by (auto simp: tracker_inv_def disjointTxs_def)
  from assms(2) have t0: "trace_inv ?s0 (cs @ [GetBody b])"
    by (simp add: trace_inv_def nSettled_def nDone_def doneOk_append)
  from assms(3) have p0: "pair_inv ?s0 (cs @ [GetBody b])"
    by (simp add: pair_inv_def nSettledAt_def nDoneAt_def)
  have "b \<in> dom (blockParents ?s0)" by simp
  from settleLoop_pair_inv [OF i0 t0 p0 this loop] show ?thesis by (simp add: eq)
next
  case (NewTransaction t)
  with assms(4) have tx: "onNewTx t s = (s', out)" by (simp add: creativedev_def)
  have "settledTxs s' = settledTxs s \<and> out = []"
  proof (cases "t \<in> pendingTxs s \<union> settledKeys s \<union> doneTxs s")
    case True
    with tx show ?thesis by (simp add: onNewTx_known)
  next
    case False
    with tx show ?thesis by (auto simp add: onNewTx_unknown)
  qed
  with assms(3) show ?thesis by (simp add: pair_inv_def)
next
  case (Finalized b)
  with assms(4) obtain fin where
    loop: "doneLoop a (txsToDone fin (settledTxs s)) (newTxs s) s = (s', out)"
    by (auto simp: creativedev_def onFinalized_def split: option.splits)
  from assms(1) have d: "distinct (newTxs s)" by (simp add: tracker_inv_def)
  have sub: "txsToDone fin (settledTxs s) \<inter> set (newTxs s) \<subseteq> settledKeys s"
    using txsToDone_keys [of fin "settledTxs s"] by auto
  from doneLoop_pair_inv [OF assms(1,2,3) d sub loop] show ?thesis .
qed

lemma run_pair_inv:
  "tracker_inv s \<Longrightarrow> trace_inv s cs \<Longrightarrow> pair_inv s cs \<Longrightarrow>
   \<exists>s'. trace_inv s' (cs @ snd (run a es s)) \<and> pair_inv s' (cs @ snd (run a es s))"
proof (induction es arbitrary: s cs)
  case Nil
  then show ?case by auto
next
  case (Cons e es)
  show ?case
  proof (cases "creativedev a e s")
    case None
    with Cons.prems show ?thesis by auto
  next
    case (Some r)
    obtain s1 c1 where r: "r = (s1, c1)" by force
    from creativedev_inv [OF Cons.prems(1,2) Some [unfolded r]]
    have i: "tracker_inv s1" "trace_inv s1 (cs @ c1)" by simp_all
    from creativedev_pair_inv [OF Cons.prems Some [unfolded r]]
    have p: "pair_inv s1 (cs @ c1)" .
    from Cons.IH [OF i p] Some r show ?thesis
      by (simp add: split_beta)
  qed
qed

lemma init_pair_inv: "pair_inv init []"
  by (simp add: pair_inv_def init_def nSettledAt_def nDoneAt_def)

text \<open>
  Claim C3, as the code has it. The claim says the oracle is asked once per (settlement
  block, transaction) pair and the \<^verbatim>\<open>finalized\<close> handler reuses a cached
  outcome. The handler has no cache: it calls \<^verbatim>\<open>isTxValid\<close> and
  \<^verbatim>\<open>isTxSuccessful\<close> again. In the sample run the pair \<open>(b1, t1)\<close> is
  looked up twice, the second time by the \<^verbatim>\<open>finalized\<close> handler.
\<close>

theorem oracle_asked_again_counterexample:
  "nIsTxValid ''b1'' ''t1'' (snd (run exApi exEvents init)) = 2 \<and>
   nIsTxSuccessful ''b1'' ''t1'' (snd (run exApi exEvents init)) = 2 \<and>
   onFinalized exApi ''b1'' exState2 =
     Some (exState3,
       [IsTxValid ''b1'' ''t2'', IsTxSuccessful ''b1'' ''t2'', OnTxDone ''t2'' (Valid ''b1'' True),
        IsTxValid ''b1'' ''t1'', IsTxSuccessful ''b1'' ''t1'', OnTxDone ''t1'' (Valid ''b1'' True)])"
  by (simp add: exEvents_run exState3_step) (simp add: exCalls_def nIsTxValid_def nIsTxSuccessful_def)

text \<open>
  Claim C3, amended. Over any sequence of events and for every (block, transaction) pair:
  the number of \<^verbatim>\<open>isTxValid\<close> calls for the pair is the number of
  \<^verbatim>\<open>onTxSettled\<close> calls plus the number of \<^verbatim>\<open>onTxDone\<close> calls
  that name the pair; when the oracle says valid, the number of
  \<^verbatim>\<open>isTxSuccessful\<close> calls for the pair is the same, and it is zero
  otherwise. An \<^verbatim>\<open>onTxDone\<close> names only a pair that an
  \<^verbatim>\<open>onTxSettled\<close> named, and there is at most one of those, so the oracle
  is asked about a settlement pair once at settlement and once more at finalization: at
  most twice each for validity and success. The \<^verbatim>\<open>finalized\<close> handler
  itself, from any state, makes one \<^verbatim>\<open>isTxValid\<close> call (and, when valid, one
  \<^verbatim>\<open>isTxSuccessful\<close> call) for each \<^verbatim>\<open>onTxDone\<close> it makes.
\<close>

theorem oracle_asked_per_callback:
  "nIsTxValid b t (snd (run a es init)) =
     nSettledAt b t (snd (run a es init)) + nDoneAt b t (snd (run a es init)) \<and>
   nIsTxSuccessful b t (snd (run a es init)) =
     (if isTxValid a b t
      then nSettledAt b t (snd (run a es init)) + nDoneAt b t (snd (run a es init)) else 0) \<and>
   nDoneAt b t (snd (run a es init)) \<le> nSettledAt b t (snd (run a es init)) \<and>
   nSettledAt b t (snd (run a es init)) \<le> 1 \<and>
   nIsTxValid b t (snd (run a es init)) \<le> 2 \<and>
   nIsTxSuccessful b t (snd (run a es init)) \<le> 2 \<and>
   (onFinalized a h s = Some (s', cs) \<longrightarrow>
      nIsTxValid b t cs = nDoneAt b t cs \<and>
      nIsTxSuccessful b t cs = (if isTxValid a b t then nDoneAt b t cs else 0))"
proof -
  let ?cs = "snd (run a es init)"
  from run_pairedAt [of a b t es init]
  have v: "nIsTxValid b t ?cs = nSettledAt b t ?cs + nDoneAt b t ?cs"
    and sc: "nIsTxSuccessful b t ?cs =
      (if isTxValid a b t then nSettledAt b t ?cs + nDoneAt b t ?cs else 0)"
    by (simp_all add: pairedAt_def)
  from init_inv have i: "tracker_inv init" and ti: "trace_inv init []" by simp_all
  from run_pair_inv [OF i ti init_pair_inv, of a es]
  obtain s1 where tr: "trace_inv s1 ?cs" and pr: "pair_inv s1 ?cs" by auto
  from pr have le: "nDoneAt b t ?cs \<le> nSettledAt b t ?cs" by (simp add: pair_inv_def)
  from tr have "nSettled t ?cs \<le> 1" by (simp add: trace_inv_def)
  with nSettledAt_le [of b t ?cs] have one: "nSettledAt b t ?cs \<le> 1" by simp
  have fin: "nIsTxValid b t cs = nDoneAt b t cs \<and>
      nIsTxSuccessful b t cs = (if isTxValid a b t then nDoneAt b t cs else 0)"
    if "onFinalized a h s = Some (s', cs)"
  proof -
    from that obtain fin where
      loop: "doneLoop a (txsToDone fin (settledTxs s)) (newTxs s) s = (s', cs)"
      by (auto simp: onFinalized_def split: option.splits)
    from doneLoop_pairedAt [OF loop, of b t] doneLoop_nSettledAt [OF loop, of b t]
    show ?thesis by (simp add: pairedAt_def)
  qed
  from v sc le one have "nIsTxValid b t ?cs \<le> 2" "nIsTxSuccessful b t ?cs \<le> 2" by simp_all
  with v sc le one fin show ?thesis by simp
qed

theorem oracle_asked_per_callback_witness:
  "isTxValid exApi ''b1'' ''t1'' \<and>
   nSettledAt ''b1'' ''t1'' (snd (run exApi exEvents init)) = 1 \<and>
   nDoneAt ''b1'' ''t1'' (snd (run exApi exEvents init)) = 1 \<and>
   nIsTxValid ''b1'' ''t1'' (snd (run exApi exEvents init)) = 2 \<and>
   nIsTxSuccessful ''b1'' ''t1'' (snd (run exApi exEvents init)) = 2 \<and>
   onFinalized exApi ''b1'' exState2 = Some (exState3, drop 7 exCalls) \<and>
   nDoneAt ''b1'' ''t1'' (drop 7 exCalls) = 1 \<and>
   nIsTxValid ''b1'' ''t1'' (drop 7 exCalls) = 1 \<and>
   nIsTxSuccessful ''b1'' ''t1'' (drop 7 exCalls) = 1"
proof -
  have v: "isTxValid exApi ''b1'' ''t1''" by (simp add: exApi_def)
  have n: "nSettledAt ''b1'' ''t1'' exCalls = 1" "nDoneAt ''b1'' ''t1'' exCalls = 1"
    "nDoneAt ''b1'' ''t1'' (drop 7 exCalls) = 1"
    by (simp_all add: exCalls_def nSettledAt_def nDoneAt_def)
  from oracle_asked_per_callback [of "''b1''" "''t1''" exApi exEvents "''b1''" exState2 exState3
      "drop 7 exCalls"] v n exState3_step
  show ?thesis by (simp add: exEvents_run)
qed

end
